theory Spec2Isabelle
  imports Main
begin

section \<open>Option declarations\<close>

text \<open>
  The model follows \<^verbatim>\<open>src/clustering/administration/main/options.cc\<close>, function by
  function. A \<^verbatim>\<open>std::string\<close> and a C string are both a \<^typ>\<open>string\<close>; a
  \<^verbatim>\<open>size_t\<close> is a \<^typ>\<open>nat\<close> (sizes of vectors and strings that exist in memory
  never wrap). The types that \<^verbatim>\<open>options.cc\<close> takes from its header
  \<^verbatim>\<open>options.hpp\<close> are declared here from the data model of the specification and
  from the way \<^verbatim>\<open>options.cc\<close> uses them.
\<close>

text \<open>
  Modelled from the spec: the enumeration \<^verbatim>\<open>appearance_t\<close> of \<^verbatim>\<open>options.hpp\<close>, the
  appearance policies of the data model. Its values are the case labels of the two
  constructors.
\<close>

datatype appearance_t =
  MANDATORY | MANDATORY_REPEAT | OPTIONAL | OPTIONAL_REPEAT | OPTIONAL_NO_PARAMETER

text \<open>
  Modelled from the spec: \<^verbatim>\<open>SIZE_MAX\<close>, the ``unbounded'' maximum of the data model,
  for a 64-bit \<^verbatim>\<open>size_t\<close>.
\<close>

definition SIZE_MAX :: nat where
  "SIZE_MAX = 2 ^ 64 - 1"

text \<open>
  Modelled from the spec: the class \<^verbatim>\<open>option_t\<close> of \<^verbatim>\<open>options.hpp\<close>, with the five
  fields that the constructors set and the parser reads. The constructors take the names
  from a \<^verbatim>\<open>names_t\<close>, of which only the member \<^verbatim>\<open>names\<close> is used: it is passed
  here as the list itself. The data model requires the list of names to be non-empty;
  the record does not enforce it, and the parser below says where it matters.
\<close>

record option_t =
  names :: "string list"
  default_values :: "string list"
  min_appearances :: nat
  max_appearances :: nat
  no_parameter :: bool

text \<open>
  The two-argument constructor. Every value of \<^typ>\<open>appearance_t\<close> has its case, so the
  \<^verbatim>\<open>default: unreachable()\<close> branch has no counterpart.
\<close>

fun option_t1 :: "string list \<Rightarrow> appearance_t \<Rightarrow> option_t" where
  "option_t1 names0 MANDATORY =
     \<lparr>names = names0, default_values = [],
      min_appearances = 1, max_appearances = 1, no_parameter = False\<rparr>"
| "option_t1 names0 MANDATORY_REPEAT =
     \<lparr>names = names0, default_values = [],
      min_appearances = 1, max_appearances = SIZE_MAX, no_parameter = False\<rparr>"
| "option_t1 names0 OPTIONAL =
     \<lparr>names = names0, default_values = [],
      min_appearances = 0, max_appearances = 1, no_parameter = False\<rparr>"
| "option_t1 names0 OPTIONAL_REPEAT =
     \<lparr>names = names0, default_values = [],
      min_appearances = 0, max_appearances = SIZE_MAX, no_parameter = False\<rparr>"
| "option_t1 names0 OPTIONAL_NO_PARAMETER =
     \<lparr>names = names0, default_values = [],
      min_appearances = 0, max_appearances = 1, no_parameter = True\<rparr>"

text \<open>
  The three-argument constructor, with a default value. For the policies that admit no
  default the source runs into \<^verbatim>\<open>unreachable()\<close>, which aborts the process: no option
  is built, which is \<^term>\<open>None\<close> here.
\<close>

fun option_t2 :: "string list \<Rightarrow> appearance_t \<Rightarrow> string \<Rightarrow> option_t option" where
  "option_t2 names0 OPTIONAL default_value =
     Some \<lparr>names = names0, default_values = [default_value],
           min_appearances = 0, max_appearances = 1, no_parameter = False\<rparr>"
| "option_t2 names0 OPTIONAL_REPEAT default_value =
     Some \<lparr>names = names0, default_values = [default_value],
           min_appearances = 0, max_appearances = SIZE_MAX, no_parameter = False\<rparr>"
| "option_t2 names0 MANDATORY default_value = None"
| "option_t2 names0 MANDATORY_REPEAT default_value = None"
| "option_t2 names0 OPTIONAL_NO_PARAMETER default_value = None"

section \<open>Matching a token against the declarations\<close>

text \<open>\<^verbatim>\<open>str[0] == '-'\<close>; the first byte of an empty C string is its terminator.\<close>

fun looks_like_option_name :: "string \<Rightarrow> bool" where
  "looks_like_option_name [] = False"
| "looks_like_option_name (c # _) = (c = CHR ''-'')"

text \<open>
  The first declared option one of whose names equals the token; \<^term>\<open>None\<close> is the
  \<^verbatim>\<open>NULL\<close> pointer.
\<close>

fun find_option :: "string \<Rightarrow> option_t list \<Rightarrow> option_t option" where
  "find_option option_name [] = None"
| "find_option option_name (it # options) =
     (if list_ex (\<lambda>name_it. name_it = option_name) (names it) then Some it
      else find_option option_name options)"

section \<open>The parser\<close>

text \<open>
  Modelled from the spec: the exception class \<^verbatim>\<open>parse_error_t\<close> of \<^verbatim>\<open>options.hpp\<close>.
  It carries a message built by \<^verbatim>\<open>strprintf\<close>. The model keeps the five messages
  apart as constructors, named after the error kinds of the specification, and keeps the
  arguments of the format string:
  \<^item> \<open>UnrecognizedOption\<close>: ``unrecognized option '%s' '';
  \<^item> \<open>UnexpectedValue\<close>: ``unexpected unnamed value '%s' ...'';
  \<^item> \<open>TooManyAppearances\<close>: ``option '%s' appears too many times (i.e. more than %zu times)'';
  \<^item> \<open>MissingParameter\<close>: ``option '%s' is missing its parameter'';
  \<^item> \<open>ParameterLooksLikeOption\<close>: ``option '%s' is missing its parameter (because '%s'
    looks like another option name)''.
\<close>

datatype parse_error_t =
  UnrecognizedOption string
| UnexpectedValue string
| TooManyAppearances string nat
| MissingParameter string
| ParameterLooksLikeOption string string

text \<open>
  A run of the parser throws a \<^typ>\<open>parse_error_t\<close>, or reads \<^verbatim>\<open>names[0]\<close> of an
  option declared with no name at all, which C++ leaves undefined: the model stops there
  with \<open>Names_out_of_range\<close> instead of inventing a value.
\<close>

datatype fault = Throw parse_error_t | Names_out_of_range

type_synonym names_by_values_t = "string \<rightharpoonup> string list"

text \<open>
  \<^verbatim>\<open>&names_by_values[official_name]\<close>: the vector stored under the key, created empty
  when the key is new.
\<close>

definition slot :: "names_by_values_t \<Rightarrow> string \<Rightarrow> string list" where
  "slot names_by_values official_name =
     (case names_by_values official_name of None \<Rightarrow> [] | Some v \<Rightarrow> v)"

text \<open>
  The \<^verbatim>\<open>for (int i = 0; i < argc; )\<close> loop, on the tokens from index \<open>i\<close> on and the two
  local collections \<^verbatim>\<open>names_by_values\<close> and \<^verbatim>\<open>unrecognized\<close>. The flag
  \<open>collect\<close> is \<^verbatim>\<open>unrecognized_out != NULL\<close>. The entry that \<^verbatim>\<open>operator[]\<close> creates
  before the appearance check is only ever seen with a value pushed onto it: on the
  throwing paths the local map is destroyed.
\<close>

fun parse_loop ::
  "bool \<Rightarrow> option_t list \<Rightarrow> string list \<Rightarrow> names_by_values_t \<times> string list
     \<Rightarrow> fault + names_by_values_t \<times> string list" where
  "parse_loop collect options [] st = Inr st"
| "parse_loop collect options (option_name # argv) (names_by_values, unrecognized) =
     (case find_option option_name options of
        None \<Rightarrow>
          if collect then
            parse_loop collect options argv (names_by_values, unrecognized @ [option_name])
          else if looks_like_option_name option_name then
            Inl (Throw (UnrecognizedOption option_name))
          else Inl (Throw (UnexpectedValue option_name))
      | Some option \<Rightarrow>
          (case names option of
             [] \<Rightarrow> Inl Names_out_of_range
           | official_name # _ \<Rightarrow>
               if length (slot names_by_values official_name) = max_appearances option then
                 Inl (Throw (TooManyAppearances option_name (max_appearances option)))
               else if no_parameter option then
                 parse_loop collect options argv
                   (names_by_values(official_name \<mapsto> slot names_by_values official_name @ [[]]),
                    unrecognized)
               else
                 (case argv of
                    [] \<Rightarrow> Inl (Throw (MissingParameter option_name))
                  | option_parameter # argv' \<Rightarrow>
                      if looks_like_option_name option_parameter then
                        Inl (Throw (ParameterLooksLikeOption option_name option_parameter))
                      else
                        parse_loop collect options argv'
                          (names_by_values
                             (official_name \<mapsto>
                                slot names_by_values official_name @ [option_parameter]),
                           unrecognized))))"

declare parse_loop.simps(2) [simp del]

text \<open>\<^verbatim>\<open>std::map::insert\<close> leaves an existing entry as it is.\<close>

definition map_insert :: "string \<Rightarrow> string list \<Rightarrow> names_by_values_t \<Rightarrow> names_by_values_t" where
  "map_insert k v m = (case m k of None \<Rightarrow> m(k \<mapsto> v) | Some _ \<Rightarrow> m)"

text \<open>The loop over the declarations that inserts the default values.\<close>

fun insert_defaults :: "option_t list \<Rightarrow> names_by_values_t \<Rightarrow> fault + names_by_values_t" where
  "insert_defaults [] names_by_values = Inr names_by_values"
| "insert_defaults (it # options) names_by_values =
     (if min_appearances it = 0 then
        (case names it of
           [] \<Rightarrow> Inl Names_out_of_range
         | official_name # _ \<Rightarrow>
             insert_defaults options (map_insert official_name (default_values it) names_by_values))
      else insert_defaults options names_by_values)"

text \<open>
  The objects behind the two output pointers: \<open>unrecognized_out = None\<close> is the
  \<^verbatim>\<open>NULL\<close> pointer, \<open>Some v\<close> a pointer to a vector holding \<open>v\<close>.
\<close>

record outputs =
  unrecognized_out :: "string list option"
  names_by_values_out :: names_by_values_t

text \<open>
  \<^verbatim>\<open>do_parse_command_line\<close>: \<open>argv\<close> is the token vector (\<open>argc\<close> is its length). The
  function returns normally (\<open>Inr ()\<close>) or not, and leaves the output objects in the state
  given by the second component.
\<close>

definition do_parse_command_line ::
  "string list \<Rightarrow> option_t list \<Rightarrow> outputs \<Rightarrow> (fault + unit) \<times> outputs" where
  "do_parse_command_line argv options outs =
     (case parse_loop (unrecognized_out outs \<noteq> None) options argv (Map.empty, []) of
        Inl e \<Rightarrow> (Inl e, outs)
      | Inr (names_by_values, unrecognized) \<Rightarrow>
          (case insert_defaults options names_by_values of
             Inl e \<Rightarrow> (Inl e, outs)
           | Inr names_by_values' \<Rightarrow>
               (Inr (),
                \<lparr>unrecognized_out =
                   (case unrecognized_out outs of None \<Rightarrow> None | Some _ \<Rightarrow> Some unrecognized),
                 names_by_values_out = names_by_values'\<rparr>)))"

text \<open>
  The output objects as a caller sets them up before the call: an empty map, and either
  no vector for the unrecognized tokens (\<^verbatim>\<open>parse_command_line\<close> passes \<^verbatim>\<open>NULL\<close>)
  or an empty one (\<^verbatim>\<open>parse_command_line_and_collect_unrecognized\<close>).
\<close>

definition fresh_outputs :: "bool \<Rightarrow> outputs" where
  "fresh_outputs collect =
     \<lparr>unrecognized_out = (if collect then Some [] else None), names_by_values_out = Map.empty\<rparr>"

text \<open>
  The counting behind ``the \<open>n\<close>-th occurrence'' of the specification: the canonical
  names that a pass over the tokens refers to, one for each token read as an option name
  that matches a declaration, in input order. A token consumed as the parameter of a
  value-bearing option is not an occurrence.
\<close>

fun occurrences :: "option_t list \<Rightarrow> string list \<Rightarrow> string list" where
  "occurrences options [] = []"
| "occurrences options (option_name # argv) =
     (case find_option option_name options of
        None \<Rightarrow> occurrences options argv
      | Some option \<Rightarrow>
          hd (names option)
            # (if no_parameter option then occurrences options argv
               else (case argv of [] \<Rightarrow> [] | _ # argv' \<Rightarrow> occurrences options argv')))"

text \<open>
  The declarations themselves that a pass over the tokens refers to, one for each token
  read as an option name that matches, in input order: the occurrences of an option are
  the entries equal to it.
\<close>

fun matched :: "option_t list \<Rightarrow> string list \<Rightarrow> option_t list" where
  "matched options [] = []"
| "matched options (option_name # argv) =
     (case find_option option_name options of
        None \<Rightarrow> matched options argv
      | Some option \<Rightarrow>
          option
            # (if no_parameter option then matched options argv
               else (case argv of [] \<Rightarrow> [] | _ # argv' \<Rightarrow> matched options argv')))"

text \<open>
  The tokens that a pass over the tokens reads as an option name and that match no
  declaration, in input order.
\<close>

fun unmatched :: "option_t list \<Rightarrow> string list \<Rightarrow> string list" where
  "unmatched options [] = []"
| "unmatched options (option_name # argv) =
     (case find_option option_name options of
        None \<Rightarrow> option_name # unmatched options argv
      | Some option \<Rightarrow>
          (if no_parameter option then unmatched options argv
           else (case argv of [] \<Rightarrow> [] | _ # argv' \<Rightarrow> unmatched options argv')))"

section \<open>The help formatter\<close>

text \<open>
  \<^verbatim>\<open>isspace\<close> of \<^verbatim>\<open><cctype>\<close> in the C locale: space, \<^verbatim>\<open>\t\<close>, \<^verbatim>\<open>\n\<close>,
  \<^verbatim>\<open>\v\<close>, \<^verbatim>\<open>\f\<close> and \<^verbatim>\<open>\r\<close>.
\<close>

definition isspace :: "char \<Rightarrow> bool" where
  "isspace c \<longleftrightarrow> c = CHR '' '' \<or> c = CHR 0x09 \<or> c = CHR 0x0A \<or> c = CHR 0x0B \<or> c = CHR 0x0C \<or> c = CHR 0x0D"

text \<open>
  \<^verbatim>\<open>split_by_spaces\<close>, on the characters from the iterator \<open>it\<close> to the end; the result
  is what the source pushes onto \<open>ret\<close> from there on. The two inner \<^verbatim>\<open>while\<close> loops
  are \<^const>\<open>dropWhile\<close> and \<^const>\<open>takeWhile\<close>.
\<close>

function split_by_spaces :: "string \<Rightarrow> string list" where
  "split_by_spaces s =
     (case dropWhile isspace s of
        [] \<Rightarrow> []
      | c # cs \<Rightarrow>
          takeWhile (\<lambda>x. \<not> isspace x) (c # cs)
            # split_by_spaces (dropWhile (\<lambda>x. \<not> isspace x) (c # cs)))"
  by pat_completeness auto
termination
proof (relation "measure length")
  show "wf (measure length)" by simp
next
  fix s :: string and c cs
  assume h: "dropWhile isspace s = c # cs"
  have "length (dropWhile (\<lambda>x. \<not> isspace x) (c # cs)) \<le> length (c # cs)"
    by (rule length_dropWhile_le)
  moreover have "\<not> isspace c"
    using h hd_dropWhile [of isspace s] by fastforce
  ultimately have "length (dropWhile (\<lambda>x. \<not> isspace x) (c # cs)) < length (c # cs)"
    by (simp add: le_imp_less_Suc length_dropWhile_le)
  moreover have "length (c # cs) \<le> length s"
    using h length_dropWhile_le [of isspace s] by simp
  ultimately show "(dropWhile (\<lambda>x. \<not> isspace x) (c # cs), s) \<in> measure length"
    by simp
qed

declare split_by_spaces.simps [simp del]

text \<open>
  The loop of \<^verbatim>\<open>word_wrap\<close> over the words, on the lines pushed so far (\<open>ret\<close>) and
  the line being filled (\<open>current_line\<close>).
\<close>

fun word_wrap_loop :: "nat \<Rightarrow> string list \<Rightarrow> string list \<Rightarrow> string \<Rightarrow> string list \<times> string" where
  "word_wrap_loop width [] ret current_line = (ret, current_line)"
| "word_wrap_loop width (it # words) ret current_line =
     (if current_line = [] then word_wrap_loop width words ret it
      else if length current_line + 1 + length it \<le> width then
        word_wrap_loop width words ret (current_line @ [CHR '' ''] @ it)
      else word_wrap_loop width words (ret @ [current_line]) it)"

definition word_wrap :: "string \<Rightarrow> nat \<Rightarrow> string list" where
  "word_wrap s width =
     (case word_wrap_loop width (split_by_spaces s) [] [] of
        (ret, current_line) \<Rightarrow> ret @ [current_line])"

text \<open>
  Modelled from the spec: the structures \<^verbatim>\<open>help_line_t\<close> and \<^verbatim>\<open>help_section_t\<close> of
  \<^verbatim>\<open>options.hpp\<close>, with the members that \<^verbatim>\<open>format_help\<close> reads.
\<close>

record help_line_t =
  syntax_description :: string
  blurb :: string

record help_section_t =
  section_name :: string
  help_lines :: "help_line_t list"

text \<open>The first pair of loops of \<^verbatim>\<open>format_help\<close>.\<close>

definition max_syntax_description_length :: "help_section_t list \<Rightarrow> nat" where
  "max_syntax_description_length help =
     fold (\<lambda>section m. fold (\<lambda>line m'. max m' (length (syntax_description line)))
                          (help_lines section) m) help 0"

text \<open>
  \<^verbatim>\<open>std::max<ssize_t>(30, 79 - static_cast<ssize_t>(max_syntax_description_length))\<close>,
  converted back to \<^verbatim>\<open>size_t\<close>: the subtraction is signed.
\<close>

definition summary_width :: "nat \<Rightarrow> nat" where
  "summary_width m = nat (max 30 (79 - int m))"

definition indent_width :: "nat \<Rightarrow> nat" where
  "indent_width m = 4 + m"

text \<open>
  The only step of \<^verbatim>\<open>format_help\<close> that can go wrong is the padding
  \<^verbatim>\<open>std::string(indent_width - (2 + line->syntax_description.size()), ' ')\<close>: the
  subtraction is unsigned, and were it to wrap around, the count would exceed
  \<^verbatim>\<open>max_size()\<close> and the string constructor would throw \<^verbatim>\<open>std::length_error\<close>.
\<close>

datatype format_error = Length_error

definition newline :: char where
  "newline = CHR 0x0A"

text \<open>
  The loop \<^verbatim>\<open>for (size_t i = 0; i < parts.size(); ++i)\<close>, on the index \<open>i\<close> and the
  parts from \<open>i\<close> on.
\<close>

fun format_parts ::
  "nat \<Rightarrow> help_line_t \<Rightarrow> nat \<Rightarrow> string list \<Rightarrow> string \<Rightarrow> format_error + string" where
  "format_parts indent line i [] ret = Inr ret"
| "format_parts indent line i (part # parts) ret =
     (if i = 0 then
        (if indent < 2 + length (syntax_description line) then Inl Length_error
         else format_parts indent line (Suc i) parts
                (ret @ ''  '' @ syntax_description line
                   @ replicate (indent - (2 + length (syntax_description line))) CHR '' ''
                   @ part @ [newline]))
      else format_parts indent line (Suc i) parts
             (ret @ replicate indent CHR '' '' @ part @ [newline]))"

fun format_lines ::
  "nat \<Rightarrow> nat \<Rightarrow> help_line_t list \<Rightarrow> string \<Rightarrow> format_error + string" where
  "format_lines summary indent [] ret = Inr ret"
| "format_lines summary indent (line # lines) ret =
     (case format_parts indent line 0 (word_wrap (blurb line) summary) ret of
        Inl e \<Rightarrow> Inl e
      | Inr ret' \<Rightarrow> format_lines summary indent lines ret')"

fun format_sections ::
  "nat \<Rightarrow> nat \<Rightarrow> help_section_t list \<Rightarrow> string \<Rightarrow> format_error + string" where
  "format_sections summary indent [] ret = Inr ret"
| "format_sections summary indent (section # help) ret =
     (case format_lines summary indent (help_lines section)
             (ret @ section_name section @ '':'' @ [newline]) of
        Inl e \<Rightarrow> Inl e
      | Inr ret' \<Rightarrow> format_sections summary indent help (ret' @ [newline]))"

definition format_help :: "help_section_t list \<Rightarrow> format_error + string" where
  "format_help help =
     format_sections (summary_width (max_syntax_description_length help))
       (indent_width (max_syntax_description_length help)) help []"

section \<open>Facts about matching and the parsing loop\<close>

lemma find_option_Some:
  "find_option t os = Some opt \<Longrightarrow> opt \<in> set os \<and> t \<in> set (names opt)"
  by (induction os) (auto simp: list_ex_iff split: if_splits)

lemma find_option_None:
  "find_option t os = None \<longleftrightarrow> (\<forall>opt\<in>set os. t \<notin> set (names opt))"
  by (induction os) (auto simp: list_ex_iff)

lemma find_option_names:
  assumes "find_option t os = Some opt"
  shows "names opt = hd (names opt) # tl (names opt)"
proof -
  from assms have "t \<in> set (names opt)" by (simp add: find_option_Some)
  then have "names opt \<noteq> []" by auto
  then show ?thesis by simp
qed

lemma parse_loop_matched:
  assumes "find_option t os = Some opt"
  shows "parse_loop c os (t # argv) (nbv, unrec) =
     (if length (slot nbv (hd (names opt))) = max_appearances opt then
        Inl (Throw (TooManyAppearances t (max_appearances opt)))
      else if no_parameter opt then
        parse_loop c os argv (nbv(hd (names opt) \<mapsto> slot nbv (hd (names opt)) @ [[]]), unrec)
      else (case argv of
              [] \<Rightarrow> Inl (Throw (MissingParameter t))
            | p # argv' \<Rightarrow>
                if looks_like_option_name p then Inl (Throw (ParameterLooksLikeOption t p))
                else parse_loop c os argv'
                       (nbv(hd (names opt) \<mapsto> slot nbv (hd (names opt)) @ [p]), unrec)))"
proof -
  obtain n ns where "names opt = n # ns" "hd (names opt) = n"
    using find_option_names [OF assms] by (metis list.sel(1))
  with assms show ?thesis by (simp add: parse_loop.simps(2) split: list.splits)
qed

lemma parse_loop_unmatched:
  assumes "find_option t os = None"
  shows "parse_loop c os (t # argv) (nbv, unrec) =
     (if c then parse_loop c os argv (nbv, unrec @ [t])
      else if looks_like_option_name t then Inl (Throw (UnrecognizedOption t))
      else Inl (Throw (UnexpectedValue t)))"
  using assms by (simp add: parse_loop.simps(2))

lemma parse_loop_append:
  "parse_loop c os pre st = Inr st' \<Longrightarrow> parse_loop c os (pre @ rest) st = parse_loop c os rest st'"
proof (induction c os pre st rule: parse_loop.induct)
  case (1 c os st)
  then show ?case by simp
next
  case (2 c os t argv nbv unrec)
  show ?case
  proof (cases "find_option t os")
    case None
    with 2 show ?thesis
      by (simp add: parse_loop_unmatched split: if_splits)
  next
    case (Some opt)
    then obtain n ns where n: "names opt = n # ns"
      using find_option_names by blast
    with 2 Some show ?thesis
      by (auto simp: parse_loop_matched split: if_splits list.splits)
  qed
qed

lemma parse_loop_in_range:
  "parse_loop c os argv st \<noteq> Inl Names_out_of_range"
proof (induction c os argv st rule: parse_loop.induct)
  case (1 c os st)
  show ?case by simp
next
  case (2 c os t argv nbv unrec)
  show ?case
  proof (cases "find_option t os")
    case None
    with 2 show ?thesis by (simp add: parse_loop_unmatched)
  next
    case (Some opt)
    then obtain n ns where "names opt = n # ns"
      using find_option_names by blast
    with 2 Some show ?thesis by (simp add: parse_loop_matched split: list.splits)
  qed
qed

lemma parse_loop_too_many_split:
  "parse_loop c os argv st = Inl (Throw (TooManyAppearances t n)) \<Longrightarrow>
     \<exists>pre rest opt nbv unrec.
       argv = pre @ t # rest \<and> parse_loop c os pre st = Inr (nbv, unrec) \<and>
       find_option t os = Some opt \<and> n = max_appearances opt \<and>
       length (slot nbv (hd (names opt))) = max_appearances opt"
proof (induction c os argv st rule: parse_loop.induct)
  case (1 c os st)
  then show ?case by simp
next
  case (2 c os x argv nbv unrec)
  let ?P = "\<lambda>argv st. \<exists>pre rest opt nbv unrec.
       argv = pre @ t # rest \<and> parse_loop c os pre st = Inr (nbv, unrec) \<and>
       find_option t os = Some opt \<and> n = max_appearances opt \<and>
       length (slot nbv (hd (names opt))) = max_appearances opt"
  have step: "?P (ys @ zs) st" if "parse_loop c os ys st = Inr st'" "?P zs st'" for ys zs st st'
  proof -
    from that(2) obtain pre rest opt nbv' unrec' where
      h: "zs = pre @ t # rest" "parse_loop c os pre st' = Inr (nbv', unrec')"
         "find_option t os = Some opt" "n = max_appearances opt"
         "length (slot nbv' (hd (names opt))) = max_appearances opt"
      by blast
    have "parse_loop c os (ys @ pre) st = Inr (nbv', unrec')"
      using parse_loop_append [OF that(1)] h(2) by simp
    with h show ?thesis
      by (metis append.assoc)
  qed
  show ?case
  proof (cases "find_option x os")
    case None
    show ?thesis
    proof (cases c)
      case True
      with None 2 have "?P argv (nbv, unrec @ [x])"
        by (simp add: parse_loop_unmatched)
      moreover have "parse_loop c os [x] (nbv, unrec) = Inr (nbv, unrec @ [x])"
        using None True by (simp add: parse_loop_unmatched)
      ultimately have "?P ([x] @ argv) (nbv, unrec)" by (rule step [rotated])
      then show ?thesis by simp
    next
      case False
      with None 2 show ?thesis by (simp add: parse_loop_unmatched split: if_splits)
    qed
  next
    case (Some opt)
    then obtain k ns where k: "names opt = k # ns" "hd (names opt) = k"
      using find_option_names by (metis list.sel(1))
    note eq = parse_loop_matched [OF Some, of c _ nbv unrec, unfolded k(2)]
    show ?thesis
    proof (cases "length (slot nbv k) = max_appearances opt")
      case True
      have "x = t" "n = max_appearances opt" using "2.prems" eq True by simp_all
      with Some True k have "x # argv = [] @ t # argv \<and> parse_loop c os [] (nbv, unrec) = Inr (nbv, unrec) \<and>
        find_option t os = Some opt \<and> n = max_appearances opt \<and>
        length (slot nbv (hd (names opt))) = max_appearances opt"
        by simp
      then show ?thesis by blast
    next
      case full: False
      show ?thesis
      proof (cases "no_parameter opt")
        case True
        let ?st = "(nbv(k \<mapsto> slot nbv k @ [[]]), unrec)"
        from "2.prems" eq full True have "parse_loop c os argv ?st = Inl (Throw (TooManyAppearances t n))"
          by simp
        with "2.IH"(2) [OF Some k(1) full True] have "?P argv ?st" by simp
        moreover have "parse_loop c os [x] (nbv, unrec) = Inr ?st"
          using eq full True by simp
        ultimately have "?P ([x] @ argv) (nbv, unrec)" by (rule step [rotated])
        then show ?thesis by simp
      next
        case False
        have "argv \<noteq> []"
          using "2.prems" eq full False by auto
        then obtain p argv' where a: "argv = p # argv'"
          by (cases argv) simp_all
        let ?st = "(nbv(k \<mapsto> slot nbv k @ [p]), unrec)"
        from "2.prems" eq full False a have np: "\<not> looks_like_option_name p"
          and r: "parse_loop c os argv' ?st = Inl (Throw (TooManyAppearances t n))"
          by (simp_all split: if_splits)
        from "2.IH"(3) [OF Some k(1) full False a np] r have "?P argv' ?st" by simp
        moreover have "parse_loop c os [x, p] (nbv, unrec) = Inr ?st"
          using eq full False np by simp
        ultimately have "?P ([x, p] @ argv') (nbv, unrec)" by (rule step [rotated])
        with a show ?thesis by simp
      qed
    qed
  qed
qed

lemma slot_upd:
  "slot (nbv(k \<mapsto> v)) k' = (if k' = k then v else slot nbv k')"
  by (simp add: slot_def)

lemma parse_loop_slot_count:
  "parse_loop c os argv (nbv0, unrec0) = Inr (nbv, unrec) \<Longrightarrow>
     length (slot nbv k) = length (slot nbv0 k) + count_list (occurrences os argv) k"
proof (induction c os argv "(nbv0, unrec0)" arbitrary: nbv0 unrec0 rule: parse_loop.induct)
  case (1 c os)
  then show ?case by simp
next
  case (2 c os x argv nbv0 unrec0)
  show ?case
  proof (cases "find_option x os")
    case None
    with 2 show ?thesis
      by (simp add: parse_loop_unmatched split: if_splits)
  next
    case (Some opt)
    then obtain n ns where n: "names opt = n # ns" "hd (names opt) = n"
      using find_option_names by (metis list.sel(1))
    note eq = parse_loop_matched [OF Some, of c _ nbv0 unrec0, unfolded n(2)]
    from "2.prems" eq have full: "length (slot nbv0 n) \<noteq> max_appearances opt"
      by (auto split: if_splits)
    show ?thesis
    proof (cases "no_parameter opt")
      case True
      with "2.prems" eq full
      have "parse_loop c os argv (nbv0(n \<mapsto> slot nbv0 n @ [[]]), unrec0) = Inr (nbv, unrec)"
        by simp
      from "2.hyps"(2) [OF Some n(1) full True this] Some n True
      show ?thesis by (simp add: slot_upd)
    next
      case False
      with "2.prems" eq full obtain p argv' where a: "argv = p # argv'"
        by (cases argv) simp_all
      with "2.prems" eq full False have np: "\<not> looks_like_option_name p"
        and r: "parse_loop c os argv' (nbv0(n \<mapsto> slot nbv0 n @ [p]), unrec0) = Inr (nbv, unrec)"
        by (simp_all split: if_splits)
      from "2.hyps"(3) [OF Some n(1) full False a np r] Some n False a
      show ?thesis by (simp add: slot_upd)
    qed
  qed
qed

lemma parse_loop_dom:
  "parse_loop c os argv (nbv0, unrec0) = Inr (nbv, unrec) \<Longrightarrow>
     dom nbv = dom nbv0 \<union> set (occurrences os argv)"
proof (induction c os argv "(nbv0, unrec0)" arbitrary: nbv0 unrec0 rule: parse_loop.induct)
  case (1 c os)
  then show ?case by simp
next
  case (2 c os x argv nbv0 unrec0)
  show ?case
  proof (cases "find_option x os")
    case None
    with 2 show ?thesis
      by (simp add: parse_loop_unmatched split: if_splits)
  next
    case (Some opt)
    then obtain n ns where n: "names opt = n # ns" "hd (names opt) = n"
      using find_option_names by (metis list.sel(1))
    note eq = parse_loop_matched [OF Some, of c _ nbv0 unrec0, unfolded n(2)]
    from "2.prems" eq have full: "length (slot nbv0 n) \<noteq> max_appearances opt"
      by (auto split: if_splits)
    show ?thesis
    proof (cases "no_parameter opt")
      case True
      with "2.prems" eq full
      have "parse_loop c os argv (nbv0(n \<mapsto> slot nbv0 n @ [[]]), unrec0) = Inr (nbv, unrec)"
        by simp
      from "2.hyps"(2) [OF Some n(1) full True this] Some n True
      show ?thesis by simp
    next
      case False
      with "2.prems" eq full obtain p argv' where a: "argv = p # argv'"
        by (cases argv) simp_all
      with "2.prems" eq full False have np: "\<not> looks_like_option_name p"
        and r: "parse_loop c os argv' (nbv0(n \<mapsto> slot nbv0 n @ [p]), unrec0) = Inr (nbv, unrec)"
        by (simp_all split: if_splits)
      from "2.hyps"(3) [OF Some n(1) full False a np r] Some n False a
      show ?thesis by simp
    qed
  qed
qed

lemma occurrences_matched:
  "k \<in> set (occurrences os argv) \<Longrightarrow>
     \<exists>t\<in>set argv. \<exists>opt. find_option t os = Some opt \<and> hd (names opt) = k"
proof (induction os argv rule: occurrences.induct)
  case (1 os)
  then show ?case by simp
next
  case (2 os x argv)
  show ?case
  proof (cases "find_option x os")
    case None
    with 2 show ?thesis by auto
  next
    case (Some opt)
    show ?thesis
    proof (cases "hd (names opt) = k")
      case True
      with Some show ?thesis by auto
    next
      case False
      with 2 Some show ?thesis
        by (cases argv; cases "no_parameter opt") auto
    qed
  qed
qed

lemma insert_defaults_total:
  "(\<forall>opt\<in>set os. min_appearances opt = 0 \<longrightarrow> names opt \<noteq> []) \<longleftrightarrow>
     (\<exists>nbv'. insert_defaults os nbv = Inr nbv')"
  by (induction os arbitrary: nbv) (auto split: list.splits)

lemma insert_defaults_keeps:
  "insert_defaults os nbv = Inr nbv' \<Longrightarrow> nbv k = Some v \<Longrightarrow> nbv' k = Some v"
proof (induction os arbitrary: nbv)
  case Nil
  then show ?case by simp
next
  case (Cons opt os)
  show ?case
  proof (cases "min_appearances opt = 0")
    case False
    with Cons show ?thesis by simp
  next
    case True
    with Cons.prems obtain n ns where n: "names opt = n # ns"
      by (cases "names opt") simp_all
    with True Cons.prems
    have r: "insert_defaults os (map_insert n (default_values opt) nbv) = Inr nbv'"
      by simp
    from Cons.prems(2) have "map_insert n (default_values opt) nbv k = Some v"
      by (auto simp: map_insert_def split: option.splits)
    with r show ?thesis by (rule Cons.IH)
  qed
qed

lemma insert_defaults_new:
  "insert_defaults os nbv = Inr nbv' \<Longrightarrow> nbv k = None \<Longrightarrow>
     nbv' k = map_option default_values
                (find (\<lambda>opt. min_appearances opt = 0 \<and> hd (names opt) = k) os)"
proof (induction os arbitrary: nbv)
  case Nil
  then show ?case by simp
next
  case (Cons opt os)
  show ?case
  proof (cases "min_appearances opt = 0")
    case False
    with Cons show ?thesis by simp
  next
    case True
    with Cons.prems obtain n ns where n: "names opt = n # ns"
      by (cases "names opt") simp_all
    with True Cons.prems
    have r: "insert_defaults os (map_insert n (default_values opt) nbv) = Inr nbv'"
      by simp
    show ?thesis
    proof (cases "n = k")
      case same: True
      with Cons.prems have "map_insert n (default_values opt) nbv k = Some (default_values opt)"
        by (simp add: map_insert_def)
      from insert_defaults_keeps [OF r this] True n same show ?thesis by simp
    next
      case False
      with Cons.prems have "map_insert n (default_values opt) nbv k = None"
        by (simp add: map_insert_def split: option.splits)
      from Cons.IH [OF r this] True n False show ?thesis by simp
    qed
  qed
qed

lemma insert_defaults_no_throw:
  "insert_defaults os nbv \<noteq> Inl (Throw e)"
  by (induction os arbitrary: nbv) (auto split: list.splits)

lemma do_parse_throws:
  "fst (do_parse_command_line argv os outs) = Inl (Throw e) \<longleftrightarrow>
     parse_loop (unrecognized_out outs \<noteq> None) os argv (Map.empty, []) = Inl (Throw e)"
  by (auto simp: do_parse_command_line_def insert_defaults_no_throw split: sum.splits prod.splits)

lemma do_parse_returns:
  "do_parse_command_line argv os outs = (Inr (), outs') \<longleftrightarrow>
     (\<exists>nbv unrec nbv'.
        parse_loop (unrecognized_out outs \<noteq> None) os argv (Map.empty, []) = Inr (nbv, unrec) \<and>
        insert_defaults os nbv = Inr nbv' \<and>
        outs' = \<lparr>unrecognized_out = (case unrecognized_out outs of None \<Rightarrow> None | Some _ \<Rightarrow> Some unrec),
                 names_by_values_out = nbv'\<rparr>)"
  by (auto simp: do_parse_command_line_def split: sum.splits prod.splits)

lemma parse_loop_collect_all:
  "\<forall>t\<in>set argv. find_option t os = None \<Longrightarrow>
     parse_loop True os argv (nbv, unrec) = Inr (nbv, unrec @ argv)"
  by (induction argv arbitrary: unrec) (simp_all add: parse_loop_unmatched)

lemma slot_empty:
  "slot Map.empty k = []"
  by (simp add: slot_def)

lemma matched_declared:
  "opt \<in> set (matched os argv) \<Longrightarrow> opt \<in> set os \<and> names opt \<noteq> []"
proof (induction os argv rule: matched.induct)
  case (1 os)
  then show ?case by simp
next
  case (2 os x argv)
  show ?case
  proof (cases "find_option x os")
    case None
    with 2 show ?thesis by simp
  next
    case (Some opt')
    then have d: "opt' \<in> set os" "names opt' \<noteq> []"
      using find_option_Some [OF Some] by auto
    show ?thesis
    proof (cases "opt = opt'")
      case True
      with d show ?thesis by simp
    next
      case False
      with 2 Some show ?thesis
        by (cases argv; cases "no_parameter opt'") auto
    qed
  qed
qed

lemma occurrences_eq:
  "occurrences os argv = map (\<lambda>opt. hd (names opt)) (matched os argv)"
proof (induction os argv rule: matched.induct)
  case (1 os)
  show ?case by simp
next
  case (2 os x argv)
  show ?case
  proof (cases "find_option x os")
    case None
    with 2 show ?thesis by simp
  next
    case (Some opt')
    with 2 show ?thesis
      by (cases argv; cases "no_parameter opt'") auto
  qed
qed

lemma count_unshared:
  assumes "\<forall>opt'\<in>set ms. hd (names opt') = hd (names opt) \<longrightarrow> opt' = opt"
  shows "count_list (map (\<lambda>opt. hd (names opt)) ms) (hd (names opt)) = count_list ms opt"
  using assms by (induction ms) auto

lemma occurrences_unshared:
  assumes "\<forall>opt'\<in>set os. names opt' \<noteq> [] \<and> hd (names opt') = hd (names opt) \<longrightarrow> opt' = opt"
  shows "count_list (occurrences os argv) (hd (names opt)) = count_list (matched os argv) opt"
proof -
  have "\<forall>opt'\<in>set (matched os argv). hd (names opt') = hd (names opt) \<longrightarrow> opt' = opt"
    using assms matched_declared by blast
  then show ?thesis
    unfolding occurrences_eq by (rule count_unshared)
qed

lemma parse_loop_keeps:
  "parse_loop c os argv (nbv0, unrec0) = Inr (nbv, unrec) \<Longrightarrow> nbv0 k = Some vs \<Longrightarrow>
     \<exists>later. nbv k = Some (vs @ later)"
proof (induction c os argv "(nbv0, unrec0)" arbitrary: nbv0 unrec0 vs rule: parse_loop.induct)
  case (1 c os)
  then show ?case by simp
next
  case (2 c os x argv nbv0 unrec0)
  show ?case
  proof (cases "find_option x os")
    case None
    with 2 show ?thesis
      by (simp add: parse_loop_unmatched split: if_splits)
  next
    case (Some opt)
    then obtain n ns where n: "names opt = n # ns" "hd (names opt) = n"
      using find_option_names by (metis list.sel(1))
    note eq = parse_loop_matched [OF Some, of c _ nbv0 unrec0, unfolded n(2)]
    from "2.prems" eq have full: "length (slot nbv0 n) \<noteq> max_appearances opt"
      by (auto split: if_splits)
    have upd: "\<exists>vs'. (nbv0(n \<mapsto> slot nbv0 n @ [v])) k = Some vs' \<and> (\<exists>l. vs' = vs @ l)" for v
      using "2.prems"(2) by (auto simp: slot_def)
    show ?thesis
    proof (cases "no_parameter opt")
      case True
      with "2.prems" eq full
      have r: "parse_loop c os argv (nbv0(n \<mapsto> slot nbv0 n @ [[]]), unrec0) = Inr (nbv, unrec)"
        by simp
      from upd [of "[]"] obtain vs' l where
        v: "(nbv0(n \<mapsto> slot nbv0 n @ [[]])) k = Some vs'" "vs' = vs @ l" by blast
      from "2.hyps"(2) [OF Some n(1) full True r v(1)] v(2)
      show ?thesis by auto
    next
      case False
      with "2.prems" eq full obtain p argv' where a: "argv = p # argv'"
        by (cases argv) simp_all
      with "2.prems" eq full False have np: "\<not> looks_like_option_name p"
        and r: "parse_loop c os argv' (nbv0(n \<mapsto> slot nbv0 n @ [p]), unrec0) = Inr (nbv, unrec)"
        by (simp_all split: if_splits)
      from upd [of p] obtain vs' l where
        v: "(nbv0(n \<mapsto> slot nbv0 n @ [p])) k = Some vs'" "vs' = vs @ l" by blast
      from "2.hyps"(3) [OF Some n(1) full False a np r v(1)] v(2)
      show ?thesis by auto
    qed
  qed
qed

lemma parse_loop_unrecognized:
  "parse_loop c os argv (nbv0, u @ v) =
     (case parse_loop c os argv (nbv0, v) of
        Inl e \<Rightarrow> Inl e
      | Inr (nbv, unrec) \<Rightarrow> Inr (nbv, u @ unrec))"
proof (induction c os argv "(nbv0, v)" arbitrary: nbv0 v rule: parse_loop.induct)
  case (1 c os)
  show ?case by simp
next
  case (2 c os x argv nbv0 v)
  show ?case
  proof (cases "find_option x os")
    case None
    show ?thesis
    proof (cases c)
      case True
      have "parse_loop c os (x # argv) (nbv0, u @ v) = parse_loop c os argv (nbv0, u @ (v @ [x]))"
        using None True by (simp add: parse_loop_unmatched)
      also have "\<dots> = (case parse_loop c os argv (nbv0, v @ [x]) of
          Inl e \<Rightarrow> Inl e | Inr (nbv, unrec) \<Rightarrow> Inr (nbv, u @ unrec))"
        by (rule "2.hyps"(1) [OF None True])
      also have "parse_loop c os argv (nbv0, v @ [x]) = parse_loop c os (x # argv) (nbv0, v)"
        using None True by (simp add: parse_loop_unmatched)
      finally show ?thesis .
    next
      case False
      with None show ?thesis by (simp add: parse_loop_unmatched)
    qed
  next
    case (Some opt)
    then obtain n ns where n: "names opt = n # ns" "hd (names opt) = n"
      using find_option_names by (metis list.sel(1))
    note eq = parse_loop_matched [OF Some, of c _ nbv0, unfolded n(2)]
    show ?thesis
    proof (cases "length (slot nbv0 n) = max_appearances opt")
      case True
      then show ?thesis by (simp add: eq)
    next
      case full: False
      show ?thesis
      proof (cases "no_parameter opt")
        case True
        from "2.hyps"(2) [OF Some n(1) full True] full True show ?thesis
          by (simp add: eq)
      next
        case False
        show ?thesis
        proof (cases argv)
          case Nil
          with full False show ?thesis by (simp add: eq)
        next
          case (Cons p argv')
          show ?thesis
          proof (cases "looks_like_option_name p")
            case True
            with full False Cons show ?thesis by (simp add: eq)
          next
            case np: False
            from "2.hyps"(3) [OF Some n(1) full False Cons np] full False Cons np
            show ?thesis by (simp add: eq)
          qed
        qed
      qed
    qed
  qed
qed

lemma parse_loop_unmatched_list:
  "parse_loop True os argv (nbv0, unrec0) = Inr (nbv, unrec) \<Longrightarrow>
     unrec = unrec0 @ unmatched os argv"
proof (induction True os argv "(nbv0, unrec0)" arbitrary: nbv0 unrec0 rule: parse_loop.induct)
  case (1 os)
  then show ?case by simp
next
  case (2 os x argv nbv0 unrec0)
  show ?case
  proof (cases "find_option x os")
    case None
    with 2 show ?thesis
      by (simp add: parse_loop_unmatched)
  next
    case (Some opt)
    then obtain n ns where n: "names opt = n # ns" "hd (names opt) = n"
      using find_option_names by (metis list.sel(1))
    note eq = parse_loop_matched [OF Some, of True _ nbv0 unrec0, unfolded n(2)]
    from "2.prems" eq have full: "length (slot nbv0 n) \<noteq> max_appearances opt"
      by (auto split: if_splits)
    show ?thesis
    proof (cases "no_parameter opt")
      case True
      with "2.prems" eq full
      have "parse_loop True os argv (nbv0(n \<mapsto> slot nbv0 n @ [[]]), unrec0) = Inr (nbv, unrec)"
        by simp
      from "2.hyps"(2) [OF Some n(1) full True this] Some True
      show ?thesis by simp
    next
      case False
      with "2.prems" eq full obtain p argv' where a: "argv = p # argv'"
        by (cases argv) simp_all
      with "2.prems" eq full False have np: "\<not> looks_like_option_name p"
        and r: "parse_loop True os argv' (nbv0(n \<mapsto> slot nbv0 n @ [p]), unrec0) = Inr (nbv, unrec)"
        by (simp_all split: if_splits)
      from "2.hyps"(3) [OF Some n(1) full False a np r] Some False a
      show ?thesis by simp
    qed
  qed
qed

lemma parse_loop_too_many_at:
  assumes "parse_loop c os pre st = Inr (nbv, unrec)"
    and "find_option t os = Some opt"
    and "length (slot nbv (hd (names opt))) = max_appearances opt"
  shows "parse_loop c os (pre @ t # rest) st
           = Inl (Throw (TooManyAppearances t (max_appearances opt)))"
  using assms(3)
  by (simp add: parse_loop_append [OF assms(1)] parse_loop_matched [OF assms(2)])

lemma parse_loop_flag_at:
  assumes "parse_loop c os pre st = Inr (nbv, unrec)"
    and "find_option t os = Some opt"
    and "length (slot nbv (hd (names opt))) \<noteq> max_appearances opt"
    and "no_parameter opt"
  shows "parse_loop c os (pre @ t # rest) st
           = parse_loop c os rest
               (nbv(hd (names opt) \<mapsto> slot nbv (hd (names opt)) @ [[]]), unrec)"
  using assms(3,4)
  by (simp add: parse_loop_append [OF assms(1)] parse_loop_matched [OF assms(2)])

lemma parse_loop_no_too_many_at:
  assumes "parse_loop c os pre st = Inr (nbv, unrec)"
    and "find_option t os = Some opt"
    and "length (slot nbv (hd (names opt))) \<noteq> max_appearances opt"
  shows "parse_loop c os (pre @ [t]) st \<noteq> Inl (Throw (TooManyAppearances t n))"
  using assms(3)
  by (simp add: parse_loop_append [OF assms(1)] parse_loop_matched [OF assms(2)])

lemma parse_loop_value_option:
  assumes "parse_loop c os pre st = Inr (nbv, unrec)"
    and "find_option t os = Some opt"
    and "\<not> no_parameter opt"
    and "length (slot nbv (hd (names opt))) \<noteq> max_appearances opt"
  shows "parse_loop c os (pre @ [t]) st = Inl (Throw (MissingParameter t))"
    and "looks_like_option_name p \<Longrightarrow>
           parse_loop c os (pre @ t # p # rest) st = Inl (Throw (ParameterLooksLikeOption t p))"
    and "\<not> looks_like_option_name p \<Longrightarrow>
           parse_loop c os (pre @ t # p # rest) st
             = parse_loop c os rest (nbv(hd (names opt) \<mapsto> slot nbv (hd (names opt)) @ [p]), unrec)"
  using assms(3,4)
  by (simp_all add: parse_loop_append [OF assms(1)] parse_loop_matched [OF assms(2)])

lemma parse_loop_unmatched_at:
  assumes "parse_loop c os pre st = Inr (nbv, unrec)"
    and "find_option t os = None"
  shows "parse_loop c os (pre @ t # rest) st =
     (if c then parse_loop c os rest (nbv, unrec @ [t])
      else if looks_like_option_name t then Inl (Throw (UnrecognizedOption t))
      else Inl (Throw (UnexpectedValue t)))"
  by (simp only: parse_loop_append [OF assms(1)] parse_loop_unmatched [OF assms(2)])

lemma do_parse_success:
  assumes "fst (do_parse_command_line argv os outs) = Inr ()"
  shows "\<exists>nbv unrec nbv'.
        parse_loop (unrecognized_out outs \<noteq> None) os argv (Map.empty, []) = Inr (nbv, unrec) \<and>
        insert_defaults os nbv = Inr nbv' \<and>
        unrecognized_out (snd (do_parse_command_line argv os outs))
          = (case unrecognized_out outs of None \<Rightarrow> None | Some _ \<Rightarrow> Some unrec) \<and>
        names_by_values_out (snd (do_parse_command_line argv os outs)) = nbv'"
proof -
  from assms have "do_parse_command_line argv os outs
      = (Inr (), snd (do_parse_command_line argv os outs))"
    by (simp add: prod_eq_iff)
  then obtain nbv unrec nbv' where
    "parse_loop (unrecognized_out outs \<noteq> None) os argv (Map.empty, []) = Inr (nbv, unrec)"
    "insert_defaults os nbv = Inr nbv'"
    "snd (do_parse_command_line argv os outs)
       = \<lparr>unrecognized_out = (case unrecognized_out outs of None \<Rightarrow> None | Some _ \<Rightarrow> Some unrec),
          names_by_values_out = nbv'\<rparr>"
    unfolding do_parse_returns by blast
  then show ?thesis by simp
qed

lemma parse_loop_value_reaches_map:
  assumes run: "parse_loop c os pre (Map.empty, []) = Inr (nbv, unrec)"
    and f: "find_option t os = Some opt"
    and np: "\<not> no_parameter opt"
    and room: "length (slot nbv (hd (names opt))) \<noteq> max_appearances opt"
    and p: "\<not> looks_like_option_name p"
    and all: "parse_loop c os (pre @ t # p # rest) (Map.empty, []) = Inr (nbv2, unrec2)"
  shows "\<exists>later. nbv2 (hd (names opt)) = Some (slot nbv (hd (names opt)) @ p # later)"
proof -
  let ?k = "hd (names opt)"
  let ?nbv1 = "nbv(?k \<mapsto> slot nbv ?k @ [p])"
  have "parse_loop c os (pre @ t # p # rest) (Map.empty, []) = parse_loop c os rest (?nbv1, unrec)"
    using p by (rule parse_loop_value_option(3) [OF run f np room])
  with all have "parse_loop c os rest (?nbv1, unrec) = Inr (nbv2, unrec2)" by simp
  moreover have "?nbv1 ?k = Some (slot nbv ?k @ [p])" by simp
  ultimately obtain later where "nbv2 ?k = Some ((slot nbv ?k @ [p]) @ later)"
    using parse_loop_keeps by blast
  then show ?thesis by simp
qed

lemma parse_loop_from_empty_list:
  "parse_loop c os argv (nbv0, u) =
     (case parse_loop c os argv (nbv0, []) of
        Inl e \<Rightarrow> Inl e
      | Inr (nbv, unrec) \<Rightarrow> Inr (nbv, u @ unrec))"
  using parse_loop_unrecognized [of c os argv nbv0 u "[]"] by simp

lemma do_parse_skip_unmatched:
  assumes run: "parse_loop True os pre (Map.empty, []) = Inr (nbv, unrec)"
    and f: "find_option t os = None"
    and c: "unrecognized_out outs = Some u0"
  shows "fst (do_parse_command_line (pre @ t # rest) os outs)
           = fst (do_parse_command_line (pre @ rest) os outs)"
    and "names_by_values_out (snd (do_parse_command_line (pre @ t # rest) os outs))
           = names_by_values_out (snd (do_parse_command_line (pre @ rest) os outs))"
    and "fst (do_parse_command_line (pre @ t # rest) os outs) = Inr () \<Longrightarrow>
           \<exists>later. unrecognized_out (snd (do_parse_command_line (pre @ t # rest) os outs))
                     = Some (unrec @ t # later)"
proof -
  have with_t: "parse_loop True os (pre @ t # rest) (Map.empty, [])
      = parse_loop True os rest (nbv, unrec @ [t])"
    using parse_loop_unmatched_at [OF run f, of rest] by simp
  have without: "parse_loop True os (pre @ rest) (Map.empty, []) = parse_loop True os rest (nbv, unrec)"
    using run by (rule parse_loop_append)
  note a = parse_loop_from_empty_list [of True os rest nbv "unrec @ [t]"]
  note b = parse_loop_from_empty_list [of True os rest nbv unrec]
  show "fst (do_parse_command_line (pre @ t # rest) os outs)
           = fst (do_parse_command_line (pre @ rest) os outs)"
    and "names_by_values_out (snd (do_parse_command_line (pre @ t # rest) os outs))
           = names_by_values_out (snd (do_parse_command_line (pre @ rest) os outs))"
    and "fst (do_parse_command_line (pre @ t # rest) os outs) = Inr () \<Longrightarrow>
           \<exists>later. unrecognized_out (snd (do_parse_command_line (pre @ t # rest) os outs))
                     = Some (unrec @ t # later)"
    by (auto simp: do_parse_command_line_def c with_t without a b split: sum.splits prod.splits)
qed

lemma unmatched_all:
  "\<forall>x\<in>set argv. find_option x os = None \<Longrightarrow> unmatched os argv = argv"
  by (induction argv) simp_all

section \<open>Claims about the parser\<close>

text \<open>
  Claim C2 fails as stated when two declarations share a canonical name, because the
  values are counted per canonical name. With \<^verbatim>\<open>--n\<close>/\<^verbatim>\<open>-1\<close> declared
  \<open>OPTIONAL_REPEAT\<close> and the flag \<^verbatim>\<open>--n\<close>/\<^verbatim>\<open>-2\<close> declared
  \<open>OPTIONAL_NO_PARAMETER\<close> (maximum 1), the tokens \<^verbatim>\<open>-1 a -1 b -2 -2\<close> parse: the flag
  occurs twice and nothing is thrown. With \<^verbatim>\<open>--n\<close>/\<^verbatim>\<open>-1\<close> declared \<open>OPTIONAL\<close>
  instead, the tokens \<^verbatim>\<open>-1 v -2\<close> throw \<open>TooManyAppearances\<close> at the first occurrence
  of the flag.
\<close>

theorem too_many_appearances_counterexample:
  "find_option ''-2'' [option_t1 [''--n'', ''-1''] OPTIONAL_REPEAT,
                       option_t1 [''--n'', ''-2''] OPTIONAL_NO_PARAMETER]
     = Some (option_t1 [''--n'', ''-2''] OPTIONAL_NO_PARAMETER)
   \<and> max_appearances (option_t1 [''--n'', ''-2''] OPTIONAL_NO_PARAMETER) = 1
   \<and> count_list
        (matched [option_t1 [''--n'', ''-1''] OPTIONAL_REPEAT,
                  option_t1 [''--n'', ''-2''] OPTIONAL_NO_PARAMETER]
           [''-1'', ''a'', ''-1'', ''b'', ''-2'', ''-2''])
        (option_t1 [''--n'', ''-2''] OPTIONAL_NO_PARAMETER) = 2
   \<and> fst (do_parse_command_line [''-1'', ''a'', ''-1'', ''b'', ''-2'', ''-2'']
            [option_t1 [''--n'', ''-1''] OPTIONAL_REPEAT,
             option_t1 [''--n'', ''-2''] OPTIONAL_NO_PARAMETER] (fresh_outputs False))
       = Inr ()
   \<and> count_list
        (matched [option_t1 [''--n'', ''-1''] OPTIONAL,
                  option_t1 [''--n'', ''-2''] OPTIONAL_NO_PARAMETER]
           [''-1'', ''v''])
        (option_t1 [''--n'', ''-2''] OPTIONAL_NO_PARAMETER) = 0
   \<and> fst (do_parse_command_line [''-1'', ''v'', ''-2'']
            [option_t1 [''--n'', ''-1''] OPTIONAL,
             option_t1 [''--n'', ''-2''] OPTIONAL_NO_PARAMETER] (fresh_outputs False))
       = Inl (Throw (TooManyAppearances ''-2'' 1))"
  by (simp add: do_parse_command_line_def fresh_outputs_def parse_loop.simps(2) slot_def
        map_insert_def SIZE_MAX_def)

text \<open>
  Claim C2, amended. The parser throws \<open>TooManyAppearances\<close> exactly at the occurrence
  of a declared option at which the values accumulated under its canonical name already
  number its \<open>max_appearances\<close>: the call fails with that error, for the token \<open>t\<close> and
  the count \<open>n\<close>, if and only if the tokens split into a prefix on which the pass
  succeeds, followed by \<open>t\<close>, where \<open>t\<close> matches a declared option whose maximum is
  \<open>n\<close> and whose canonical name holds \<open>n\<close> values; the pass over the prefix having
  succeeded, nothing was thrown earlier. The number of values held is the number of
  earlier occurrences under that canonical name. When no other declared option shares
  the canonical name it is the number of earlier occurrences of the option itself: the
  option is refused at its \<open>(max_appearances + 1)\<close>-th occurrence and at no earlier one.
  In particular a flag declared \<open>OPTIONAL_NO_PARAMETER\<close> (maximum 1, no parameter) whose
  canonical name is not shared is accepted at its first occurrence, wherever it stands,
  and refused at its second.
\<close>

theorem too_many_appearances_at_offending_occurrence:
  "(fst (do_parse_command_line argv options outs) = Inl (Throw (TooManyAppearances t n)) \<longleftrightarrow>
      (\<exists>pre rest opt st.
         argv = pre @ t # rest \<and>
         parse_loop (unrecognized_out outs \<noteq> None) options pre (Map.empty, []) = Inr st \<and>
         find_option t options = Some opt \<and> n = max_appearances opt \<and>
         count_list (occurrences options pre) (hd (names opt)) = max_appearances opt))
   \<and> (parse_loop (unrecognized_out outs \<noteq> None) options pre (Map.empty, []) = Inr (nbv, unrec) \<longrightarrow>
          (nbv k = None \<longrightarrow> count_list (occurrences options pre) k = 0) \<and>
          (\<forall>vs. nbv k = Some vs \<longrightarrow> length vs = count_list (occurrences options pre) k))
   \<and> (parse_loop (unrecognized_out outs \<noteq> None) options pre (Map.empty, []) = Inr (nbv, unrec) \<and>
       find_option t options = Some opt \<and>
       (\<forall>opt'\<in>set options. names opt' \<noteq> [] \<and> hd (names opt') = hd (names opt) \<longrightarrow> opt' = opt) \<longrightarrow>
          count_list (occurrences options pre) (hd (names opt)) = count_list (matched options pre) opt \<and>
          (count_list (matched options pre) opt = max_appearances opt \<longrightarrow>
             fst (do_parse_command_line (pre @ t # rest) options outs)
               = Inl (Throw (TooManyAppearances t (max_appearances opt)))) \<and>
          (count_list (matched options pre) opt \<noteq> max_appearances opt \<longrightarrow>
             fst (do_parse_command_line (pre @ [t]) options outs)
               \<noteq> Inl (Throw (TooManyAppearances t n))) \<and>
          (count_list (matched options pre) opt \<noteq> max_appearances opt \<and> no_parameter opt \<longrightarrow>
             parse_loop (unrecognized_out outs \<noteq> None) options (pre @ t # rest) (Map.empty, [])
               = parse_loop (unrecognized_out outs \<noteq> None) options rest
                   (nbv(hd (names opt) \<mapsto> slot nbv (hd (names opt)) @ [[]]), unrec)))
   \<and> max_appearances (option_t1 ns OPTIONAL_NO_PARAMETER) = 1
   \<and> no_parameter (option_t1 ns OPTIONAL_NO_PARAMETER)"
proof (intro conjI impI allI)
  let ?c = "unrecognized_out outs \<noteq> None"
  have held: "length (slot nbv k) = count_list (occurrences options pre) k"
    if "parse_loop ?c options pre (Map.empty, []) = Inr (nbv, unrec)" for pre nbv unrec k
    using parse_loop_slot_count [OF that, of k] by (simp add: slot_empty)
  show "fst (do_parse_command_line argv options outs) = Inl (Throw (TooManyAppearances t n)) \<longleftrightarrow>
      (\<exists>pre rest opt st.
         argv = pre @ t # rest \<and> parse_loop ?c options pre (Map.empty, []) = Inr st \<and>
         find_option t options = Some opt \<and> n = max_appearances opt \<and>
         count_list (occurrences options pre) (hd (names opt)) = max_appearances opt)"
    (is "?L \<longleftrightarrow> ?R")
  proof
    assume ?L
    then have "parse_loop ?c options argv (Map.empty, []) = Inl (Throw (TooManyAppearances t n))"
      by (simp only: do_parse_throws)
    then obtain pre rest opt nbv unrec where
      h: "argv = pre @ t # rest" "parse_loop ?c options pre (Map.empty, []) = Inr (nbv, unrec)"
         "find_option t options = Some opt" "n = max_appearances opt"
         "length (slot nbv (hd (names opt))) = max_appearances opt"
      using parse_loop_too_many_split by blast
    from h(5) held [OF h(2)]
    have "count_list (occurrences options pre) (hd (names opt)) = max_appearances opt"
      by simp
    with h(1-4) show ?R by blast
  next
    assume ?R
    then obtain pre rest opt nbv unrec where
      h: "argv = pre @ t # rest" "parse_loop ?c options pre (Map.empty, []) = Inr (nbv, unrec)"
         "find_option t options = Some opt" "n = max_appearances opt"
         "count_list (occurrences options pre) (hd (names opt)) = max_appearances opt"
      by (metis surj_pair)
    from h(5) held [OF h(2)]
    have "length (slot nbv (hd (names opt))) = max_appearances opt"
      by simp
    with h(2,3) have "parse_loop ?c options (pre @ t # rest) (Map.empty, [])
        = Inl (Throw (TooManyAppearances t (max_appearances opt)))"
      by (rule parse_loop_too_many_at)
    then show ?L
      unfolding h(1,4) by (simp only: do_parse_throws)
  qed
  {
    assume run: "parse_loop ?c options pre (Map.empty, []) = Inr (nbv, unrec)"
    {
      assume "nbv k = None"
      with held [OF run, of k] show "count_list (occurrences options pre) k = 0"
        by (simp add: slot_def)
    }
    {
      fix vs
      assume "nbv k = Some vs"
      with held [OF run, of k] show "length vs = count_list (occurrences options pre) k"
        by (simp add: slot_def)
    }
  }
next
  let ?c = "unrecognized_out outs \<noteq> None"
  assume h: "parse_loop ?c options pre (Map.empty, []) = Inr (nbv, unrec) \<and>
       find_option t options = Some opt \<and>
       (\<forall>opt'\<in>set options. names opt' \<noteq> [] \<and> hd (names opt') = hd (names opt) \<longrightarrow> opt' = opt)"
  then have run: "parse_loop ?c options pre (Map.empty, []) = Inr (nbv, unrec)"
    and f: "find_option t options = Some opt"
    and uniq: "\<forall>opt'\<in>set options. names opt' \<noteq> [] \<and> hd (names opt') = hd (names opt) \<longrightarrow> opt' = opt"
    by blast+
  show same: "count_list (occurrences options pre) (hd (names opt)) = count_list (matched options pre) opt"
    using uniq by (rule occurrences_unshared)
  have "length (slot nbv (hd (names opt))) = count_list (occurrences options pre) (hd (names opt))"
    using parse_loop_slot_count [OF run, of "hd (names opt)"] by (simp add: slot_empty)
  with same have own: "length (slot nbv (hd (names opt))) = count_list (matched options pre) opt"
    by simp
  {
    assume "count_list (matched options pre) opt = max_appearances opt"
    with own have "length (slot nbv (hd (names opt))) = max_appearances opt" by simp
    with run f have "parse_loop ?c options (pre @ t # rest) (Map.empty, [])
        = Inl (Throw (TooManyAppearances t (max_appearances opt)))"
      by (rule parse_loop_too_many_at)
    then show "fst (do_parse_command_line (pre @ t # rest) options outs)
        = Inl (Throw (TooManyAppearances t (max_appearances opt)))"
      by (simp only: do_parse_throws)
  }
  {
    assume "count_list (matched options pre) opt \<noteq> max_appearances opt"
    with own have "length (slot nbv (hd (names opt))) \<noteq> max_appearances opt" by simp
    with run f have "parse_loop ?c options (pre @ [t]) (Map.empty, [])
        \<noteq> Inl (Throw (TooManyAppearances t n))"
      by (rule parse_loop_no_too_many_at)
    then show "fst (do_parse_command_line (pre @ [t]) options outs)
        \<noteq> Inl (Throw (TooManyAppearances t n))"
      unfolding do_parse_throws .
  }
  {
    assume "count_list (matched options pre) opt \<noteq> max_appearances opt \<and> no_parameter opt"
    with own have "length (slot nbv (hd (names opt))) \<noteq> max_appearances opt" "no_parameter opt"
      by simp_all
    with run f show "parse_loop ?c options (pre @ t # rest) (Map.empty, [])
        = parse_loop ?c options rest
            (nbv(hd (names opt) \<mapsto> slot nbv (hd (names opt)) @ [[]]), unrec)"
      by (rule parse_loop_flag_at)
  }
next
  show "max_appearances (option_t1 ns OPTIONAL_NO_PARAMETER) = 1"
    and "no_parameter (option_t1 ns OPTIONAL_NO_PARAMETER)"
    by simp_all
qed

text \<open>
  The theorem at the flag \<^verbatim>\<open>--verbose\<close>/\<^verbatim>\<open>-v\<close>, once after one earlier occurrence and
  other tokens, once at its first occurrence.
\<close>

theorem too_many_appearances_witness:
  "count_list
     (matched [option_t1 [''--verbose'', ''-v''] OPTIONAL_NO_PARAMETER,
               option_t1 [''--port''] OPTIONAL_REPEAT]
        [''--verbose'', ''--port'', ''80''])
     (option_t1 [''--verbose'', ''-v''] OPTIONAL_NO_PARAMETER) = 1
   \<and> fst (do_parse_command_line [''--verbose'', ''--port'', ''80'', ''-v'', ''--port'', ''81'']
            [option_t1 [''--verbose'', ''-v''] OPTIONAL_NO_PARAMETER,
             option_t1 [''--port''] OPTIONAL_REPEAT] (fresh_outputs False))
       = Inl (Throw (TooManyAppearances ''-v'' 1))
   \<and> fst (do_parse_command_line [''--port'', ''80'', ''-v'']
            [option_t1 [''--verbose'', ''-v''] OPTIONAL_NO_PARAMETER,
             option_t1 [''--port''] OPTIONAL_REPEAT] (fresh_outputs False))
       \<noteq> Inl (Throw (TooManyAppearances ''-v'' 1))"
proof -
  let ?flag = "option_t1 [''--verbose'', ''-v''] OPTIONAL_NO_PARAMETER"
  let ?os = "[?flag, option_t1 [''--port''] OPTIONAL_REPEAT]"
  let ?pre = "[''--verbose'', ''--port'', ''80'']"
  let ?nbv = "[''--verbose'' \<mapsto> [[]], ''--port'' \<mapsto> [''80'']]"
  let ?short = "[''--port'', ''80'']"
  let ?few = "[''--port'' \<mapsto> [''80'']]"
  have m1: "matched ?os ?pre = [?flag, option_t1 [''--port''] OPTIONAL_REPEAT]"
    and m0: "matched ?os ?short = [option_t1 [''--port''] OPTIONAL_REPEAT]"
    by simp_all
  have c1: "count_list (matched ?os ?pre) ?flag = 1"
    and c0: "count_list (matched ?os ?short) ?flag = 0"
    unfolding m1 m0 by simp_all
  have h: "parse_loop (unrecognized_out (fresh_outputs False) \<noteq> None) ?os ?pre (Map.empty, [])
        = Inr (?nbv, []) \<and>
      find_option ''-v'' ?os = Some ?flag \<and>
      (\<forall>opt'\<in>set ?os. names opt' \<noteq> [] \<and> hd (names opt') = hd (names ?flag) \<longrightarrow> opt' = ?flag)"
    by (simp add: fresh_outputs_def parse_loop.simps(2) slot_def SIZE_MAX_def)
  have h0: "parse_loop (unrecognized_out (fresh_outputs False) \<noteq> None) ?os ?short (Map.empty, [])
        = Inr (?few, []) \<and>
      find_option ''-v'' ?os = Some ?flag \<and>
      (\<forall>opt'\<in>set ?os. names opt' \<noteq> [] \<and> hd (names opt') = hd (names ?flag) \<longrightarrow> opt' = ?flag)"
    by (simp add: fresh_outputs_def parse_loop.simps(2) slot_def SIZE_MAX_def)
  note a = too_many_appearances_at_offending_occurrence
    [of _ ?os "fresh_outputs False" "''-v''" 1 ?pre ?nbv "[]" _ ?flag "[''--port'', ''81'']",
     THEN conjunct2, THEN conjunct2, THEN conjunct1, THEN mp, OF h]
  note b = too_many_appearances_at_offending_occurrence
    [of _ ?os "fresh_outputs False" "''-v''" 1 ?short ?few "[]" _ ?flag,
     THEN conjunct2, THEN conjunct2, THEN conjunct1, THEN mp, OF h0]
  from a c1 have "fst (do_parse_command_line (?pre @ ''-v'' # [''--port'', ''81'']) ?os (fresh_outputs False))
       = Inl (Throw (TooManyAppearances ''-v'' 1))"
    by simp
  moreover from b c0 have "fst (do_parse_command_line (?short @ [''-v'']) ?os (fresh_outputs False))
       \<noteq> Inl (Throw (TooManyAppearances ''-v'' 1))"
    by simp
  ultimately show ?thesis using c1 by simp
qed

text \<open>
  Claim C3 fails as stated when two declarations share a canonical name. With
  \<^verbatim>\<open>--n\<close>/\<^verbatim>\<open>-1\<close> and \<^verbatim>\<open>--n\<close>/\<^verbatim>\<open>-2\<close> both declared \<open>OPTIONAL\<close> and the tokens
  \<^verbatim>\<open>-1 v -2 w\<close>, the token \<^verbatim>\<open>-2\<close> matches a value-bearing option that has not
  occurred before and whose maximum is 1, and the next token does not start with
  \<^verbatim>\<open>-\<close>; the parser does not consume \<^verbatim>\<open>w\<close> but throws \<open>TooManyAppearances\<close>.
\<close>

theorem value_option_parameter_counterexample:
  "find_option ''-2'' [option_t1 [''--n'', ''-1''] OPTIONAL, option_t1 [''--n'', ''-2''] OPTIONAL]
     = Some (option_t1 [''--n'', ''-2''] OPTIONAL)
   \<and> \<not> no_parameter (option_t1 [''--n'', ''-2''] OPTIONAL)
   \<and> max_appearances (option_t1 [''--n'', ''-2''] OPTIONAL) = 1
   \<and> count_list
        (matched [option_t1 [''--n'', ''-1''] OPTIONAL, option_t1 [''--n'', ''-2''] OPTIONAL]
           [''-1'', ''v''])
        (option_t1 [''--n'', ''-2''] OPTIONAL) = 0
   \<and> fst (do_parse_command_line [''-1'', ''v'']
            [option_t1 [''--n'', ''-1''] OPTIONAL, option_t1 [''--n'', ''-2''] OPTIONAL]
            (fresh_outputs False))
       = Inr ()
   \<and> \<not> looks_like_option_name ''w''
   \<and> fst (do_parse_command_line [''-1'', ''v'', ''-2'', ''w'']
            [option_t1 [''--n'', ''-1''] OPTIONAL, option_t1 [''--n'', ''-2''] OPTIONAL]
            (fresh_outputs False))
       = Inl (Throw (TooManyAppearances ''-2'' 1))"
  by (simp add: do_parse_command_line_def fresh_outputs_def parse_loop.simps(2) slot_def
        map_insert_def)

text \<open>
  Claim C3, amended. At a token that matches a value-bearing option, the pass over the
  tokens before it having succeeded, when the number of earlier occurrences under the
  option's canonical name differs from its \<open>max_appearances\<close> (the earlier occurrences
  of the option itself, when no other declared option shares the canonical name): if it is
  the last token the call fails with \<open>MissingParameter\<close>; if the next token starts with
  \<^verbatim>\<open>-\<close> the call fails with \<open>ParameterLooksLikeOption\<close>; otherwise the next token is
  consumed, the pass goes on after it, and when the call succeeds the output map holds,
  under the canonical name, the values recorded before, then that token, then the values
  of later occurrences. Nothing here depends on whether unrecognized tokens are collected
  (\<open>unrecognized_out outs\<close> is arbitrary). The tokens \<^verbatim>\<open>--host -x value\<close>, with
  \<^verbatim>\<open>--host\<close> declared under any value-bearing policy and collection disabled, give
  \<open>ParameterLooksLikeOption\<close>.
\<close>

theorem value_option_parameter_rules:
  "(parse_loop (unrecognized_out outs \<noteq> None) options pre (Map.empty, []) = Inr (nbv, unrec) \<and>
    find_option t options = Some opt \<and> \<not> no_parameter opt \<and>
    count_list (occurrences options pre) (hd (names opt)) \<noteq> max_appearances opt \<longrightarrow>
      fst (do_parse_command_line (pre @ [t]) options outs) = Inl (Throw (MissingParameter t)) \<and>
      (looks_like_option_name p \<longrightarrow>
         fst (do_parse_command_line (pre @ t # p # rest) options outs)
           = Inl (Throw (ParameterLooksLikeOption t p))) \<and>
      (\<not> looks_like_option_name p \<longrightarrow>
         parse_loop (unrecognized_out outs \<noteq> None) options (pre @ t # p # rest) (Map.empty, [])
           = parse_loop (unrecognized_out outs \<noteq> None) options rest
               (nbv(hd (names opt) \<mapsto> slot nbv (hd (names opt)) @ [p]), unrec) \<and>
         (fst (do_parse_command_line (pre @ t # p # rest) options outs) = Inr () \<longrightarrow>
            (nbv (hd (names opt)) = None \<longrightarrow>
               (\<exists>later. names_by_values_out
                           (snd (do_parse_command_line (pre @ t # p # rest) options outs))
                           (hd (names opt)) = Some (p # later))) \<and>
            (\<forall>earlier. nbv (hd (names opt)) = Some earlier \<longrightarrow>
               (\<exists>later. names_by_values_out
                           (snd (do_parse_command_line (pre @ t # p # rest) options outs))
                           (hd (names opt)) = Some (earlier @ p # later))))))
   \<and> ((\<forall>opt'\<in>set options. names opt' \<noteq> [] \<and> hd (names opt') = hd (names opt) \<longrightarrow> opt' = opt) \<longrightarrow>
        count_list (occurrences options pre) (hd (names opt)) = count_list (matched options pre) opt)
   \<and> (appearance \<noteq> OPTIONAL_NO_PARAMETER \<longrightarrow>
        fst (do_parse_command_line [''--host'', ''-x'', ''value'']
               [option_t1 [''--host''] appearance] (fresh_outputs False))
          = Inl (Throw (ParameterLooksLikeOption ''--host'' ''-x'')))"
proof (intro conjI impI allI)
  let ?c = "unrecognized_out outs \<noteq> None"
  let ?k = "hd (names opt)"
  let ?run = "do_parse_command_line (pre @ t # p # rest) options outs"
  assume h: "parse_loop ?c options pre (Map.empty, []) = Inr (nbv, unrec) \<and>
    find_option t options = Some opt \<and> \<not> no_parameter opt \<and>
    count_list (occurrences options pre) ?k \<noteq> max_appearances opt"
  then have pre: "parse_loop ?c options pre (Map.empty, []) = Inr (nbv, unrec)"
    and f: "find_option t options = Some opt" and np: "\<not> no_parameter opt"
    and cnt: "count_list (occurrences options pre) ?k \<noteq> max_appearances opt"
    by blast+
  have "length (slot nbv ?k) = count_list (occurrences options pre) ?k"
    using parse_loop_slot_count [OF pre, of ?k] by (simp add: slot_empty)
  with cnt have room: "length (slot nbv ?k) \<noteq> max_appearances opt" by simp
  note rules = parse_loop_value_option [OF pre f np room]
  show "fst (do_parse_command_line (pre @ [t]) options outs) = Inl (Throw (MissingParameter t))"
    using rules(1) by (simp only: do_parse_throws)
  {
    assume "looks_like_option_name p"
    then show "fst ?run = Inl (Throw (ParameterLooksLikeOption t p))"
      using rules(2) by (simp only: do_parse_throws)
  }
  {
    assume p: "\<not> looks_like_option_name p"
    then show "parse_loop ?c options (pre @ t # p # rest) (Map.empty, [])
      = parse_loop ?c options rest (nbv(?k \<mapsto> slot nbv ?k @ [p]), unrec)"
      by (rule rules(3))
    assume "fst ?run = Inr ()"
    then obtain nbv2 unrec2 nbv' where
      all: "parse_loop ?c options (pre @ t # p # rest) (Map.empty, []) = Inr (nbv2, unrec2)"
      and dfl: "insert_defaults options nbv2 = Inr nbv'"
      and out: "names_by_values_out (snd ?run) = nbv'"
      using do_parse_success by blast
    from parse_loop_value_reaches_map [OF pre f np room p all]
    obtain later where "nbv2 ?k = Some (slot nbv ?k @ p # later)" by blast
    with dfl have reach: "names_by_values_out (snd ?run) ?k = Some (slot nbv ?k @ p # later)"
      unfolding out by (rule insert_defaults_keeps)
    {
      assume "nbv ?k = None"
      with reach show "\<exists>later. names_by_values_out (snd ?run) ?k = Some (p # later)"
        by (simp add: slot_def)
    }
    {
      fix earlier
      assume "nbv ?k = Some earlier"
      with reach show "\<exists>later. names_by_values_out (snd ?run) ?k = Some (earlier @ p # later)"
        by (simp add: slot_def)
    }
  }
next
  assume "\<forall>opt'\<in>set options. names opt' \<noteq> [] \<and> hd (names opt') = hd (names opt) \<longrightarrow> opt' = opt"
  then show "count_list (occurrences options pre) (hd (names opt)) = count_list (matched options pre) opt"
    by (rule occurrences_unshared)
next
  assume "appearance \<noteq> OPTIONAL_NO_PARAMETER"
  then show "fst (do_parse_command_line [''--host'', ''-x'', ''value'']
               [option_t1 [''--host''] appearance] (fresh_outputs False))
          = Inl (Throw (ParameterLooksLikeOption ''--host'' ''-x''))"
    by (cases appearance)
       (simp_all add: do_parse_command_line_def fresh_outputs_def parse_loop.simps(2) slot_def SIZE_MAX_def)
qed

text \<open>
  The theorem at the second occurrence of a repeatable \<^verbatim>\<open>--host\<close>/\<^verbatim>\<open>-h\<close>, after
  \<^verbatim>\<open>--host a\<close> and before a flag and a third occurrence.
\<close>

theorem value_option_parameter_rules_witness:
  "fst (do_parse_command_line [''--host'', ''a'', ''-h'']
          [option_t1 [''--host'', ''-h''] OPTIONAL_REPEAT,
           option_t1 [''--verbose''] OPTIONAL_NO_PARAMETER] (fresh_outputs False))
     = Inl (Throw (MissingParameter ''-h''))
   \<and> fst (do_parse_command_line [''--host'', ''a'', ''-h'', ''-x'', ''b'']
          [option_t1 [''--host'', ''-h''] OPTIONAL_REPEAT,
           option_t1 [''--verbose''] OPTIONAL_NO_PARAMETER] (fresh_outputs False))
     = Inl (Throw (ParameterLooksLikeOption ''-h'' ''-x''))
   \<and> (\<exists>later. names_by_values_out
          (snd (do_parse_command_line
                  [''--host'', ''a'', ''-h'', ''b'', ''--verbose'', ''--host'', ''c'']
                  [option_t1 [''--host'', ''-h''] OPTIONAL_REPEAT,
                   option_t1 [''--verbose''] OPTIONAL_NO_PARAMETER] (fresh_outputs False)))
          ''--host'' = Some ([''a''] @ ''b'' # later))
   \<and> names_by_values_out
          (snd (do_parse_command_line
                  [''--host'', ''a'', ''-h'', ''b'', ''--verbose'', ''--host'', ''c'']
                  [option_t1 [''--host'', ''-h''] OPTIONAL_REPEAT,
                   option_t1 [''--verbose''] OPTIONAL_NO_PARAMETER] (fresh_outputs False)))
          ''--host'' = Some [''a'', ''b'', ''c'']"
proof -
  let ?host = "option_t1 [''--host'', ''-h''] OPTIONAL_REPEAT"
  let ?os = "[?host, option_t1 [''--verbose''] OPTIONAL_NO_PARAMETER]"
  let ?pre = "[''--host'', ''a'']"
  let ?nbv = "[''--host'' \<mapsto> [''a'']]"
  let ?tail = "[''--verbose'', ''--host'', ''c'']"
  let ?run = "do_parse_command_line (?pre @ ''-h'' # ''b'' # ?tail) ?os (fresh_outputs False)"
  have h: "parse_loop (unrecognized_out (fresh_outputs False) \<noteq> None) ?os ?pre (Map.empty, [])
        = Inr (?nbv, []) \<and>
      find_option ''-h'' ?os = Some ?host \<and> \<not> no_parameter ?host \<and>
      count_list (occurrences ?os ?pre) (hd (names ?host)) \<noteq> max_appearances ?host"
    by (simp add: fresh_outputs_def parse_loop.simps(2) slot_def SIZE_MAX_def)
  note inst = value_option_parameter_rules
    [of "fresh_outputs False" ?os ?pre ?nbv "[]" "''-h''" ?host, THEN conjunct1, THEN mp, OF h]
  have ok: "fst ?run = Inr ()"
    and final: "names_by_values_out (snd ?run) ''--host'' = Some [''a'', ''b'', ''c'']"
    by (simp_all add: do_parse_command_line_def fresh_outputs_def parse_loop.simps(2) slot_def
          map_insert_def SIZE_MAX_def)
  have "\<not> looks_like_option_name ''b''" by simp
  with inst [of "''b''" ?tail] ok
  have "\<forall>earlier. ?nbv (hd (names ?host)) = Some earlier \<longrightarrow>
      (\<exists>later. names_by_values_out (snd ?run) (hd (names ?host)) = Some (earlier @ ''b'' # later))"
    by blast
  then have "\<exists>later. names_by_values_out (snd ?run) ''--host'' = Some ([''a''] @ ''b'' # later)"
    by simp
  moreover from inst [of "''-x''" "[''b'']"]
  have "fst (do_parse_command_line (?pre @ [''-h'']) ?os (fresh_outputs False))
      = Inl (Throw (MissingParameter ''-h''))"
    and "fst (do_parse_command_line (?pre @ ''-h'' # ''-x'' # [''b'']) ?os (fresh_outputs False))
      = Inl (Throw (ParameterLooksLikeOption ''-h'' ''-x''))"
    by simp_all
  ultimately show ?thesis using final by simp
qed

text \<open>
  Claim C4. At a token that matches no declared name, the pass over the tokens before it
  having succeeded: with collection enabled no error is raised for it and nothing is
  recorded for it in the map (the call ends as it does without the token, with the same
  output map), and when the call succeeds the unrecognized output vector holds the tokens
  collected before it, then the token, then the tokens collected after it; with
  collection disabled the call fails, with \<open>UnrecognizedOption\<close> when the token starts
  with \<^verbatim>\<open>-\<close> and with \<open>UnexpectedValue\<close> otherwise. On every successful call with
  collection the unrecognized output vector is the sequence of the unmatched tokens in
  input order, which is the whole token sequence when no token matches.
\<close>

theorem unmatched_token_rules:
  "(parse_loop (unrecognized_out outs \<noteq> None) options pre (Map.empty, []) = Inr (nbv, unrec) \<and>
    find_option t options = None \<longrightarrow>
      (unrecognized_out outs \<noteq> None \<longrightarrow>
         unrec = unmatched options pre \<and>
         fst (do_parse_command_line (pre @ t # rest) options outs)
           = fst (do_parse_command_line (pre @ rest) options outs) \<and>
         names_by_values_out (snd (do_parse_command_line (pre @ t # rest) options outs))
           = names_by_values_out (snd (do_parse_command_line (pre @ rest) options outs)) \<and>
         (fst (do_parse_command_line (pre @ t # rest) options outs) = Inr () \<longrightarrow>
            (\<exists>later. unrecognized_out (snd (do_parse_command_line (pre @ t # rest) options outs))
                       = Some (unrec @ t # later)))) \<and>
      (unrecognized_out outs = None \<and> looks_like_option_name t \<longrightarrow>
         fst (do_parse_command_line (pre @ t # rest) options outs)
           = Inl (Throw (UnrecognizedOption t))) \<and>
      (unrecognized_out outs = None \<and> \<not> looks_like_option_name t \<longrightarrow>
         fst (do_parse_command_line (pre @ t # rest) options outs)
           = Inl (Throw (UnexpectedValue t))))
   \<and> (unrecognized_out outs \<noteq> None \<and> fst (do_parse_command_line argv options outs) = Inr () \<longrightarrow>
        unrecognized_out (snd (do_parse_command_line argv options outs))
          = Some (unmatched options argv))
   \<and> ((\<forall>x\<in>set argv. find_option x options = None) \<and> unrecognized_out outs \<noteq> None \<and>
        (\<forall>opt\<in>set options. names opt \<noteq> []) \<longrightarrow>
          fst (do_parse_command_line argv options outs) = Inr () \<and>
          unrecognized_out (snd (do_parse_command_line argv options outs)) = Some argv)
   \<and> looks_like_option_name s = (s \<noteq> [] \<and> hd s = CHR ''-'')"
proof (intro conjI impI)
  let ?c = "unrecognized_out outs \<noteq> None"
  assume "parse_loop ?c options pre (Map.empty, []) = Inr (nbv, unrec) \<and> find_option t options = None"
  then have pre: "parse_loop ?c options pre (Map.empty, []) = Inr (nbv, unrec)"
    and f: "find_option t options = None"
    by blast+
  note at_t = parse_loop_unmatched_at [OF pre f, of rest]
  {
    assume c: "?c"
    then obtain u0 where u0: "unrecognized_out outs = Some u0" by blast
    from pre c have run: "parse_loop True options pre (Map.empty, []) = Inr (nbv, unrec)"
      by simp
    from parse_loop_unmatched_list [OF run] show "unrec = unmatched options pre"
      by simp
    show "fst (do_parse_command_line (pre @ t # rest) options outs)
           = fst (do_parse_command_line (pre @ rest) options outs)"
      using run f u0 by (rule do_parse_skip_unmatched(1))
    show "names_by_values_out (snd (do_parse_command_line (pre @ t # rest) options outs))
           = names_by_values_out (snd (do_parse_command_line (pre @ rest) options outs))"
      using run f u0 by (rule do_parse_skip_unmatched(2))
    assume "fst (do_parse_command_line (pre @ t # rest) options outs) = Inr ()"
    with run f u0
    show "\<exists>later. unrecognized_out (snd (do_parse_command_line (pre @ t # rest) options outs))
                       = Some (unrec @ t # later)"
      by (rule do_parse_skip_unmatched(3))
  }
  {
    assume "unrecognized_out outs = None \<and> looks_like_option_name t"
    with at_t have "parse_loop ?c options (pre @ t # rest) (Map.empty, [])
      = Inl (Throw (UnrecognizedOption t))"
      by simp
    then show "fst (do_parse_command_line (pre @ t # rest) options outs)
           = Inl (Throw (UnrecognizedOption t))"
      by (simp only: do_parse_throws)
  }
  {
    assume "unrecognized_out outs = None \<and> \<not> looks_like_option_name t"
    with at_t have "parse_loop ?c options (pre @ t # rest) (Map.empty, [])
      = Inl (Throw (UnexpectedValue t))"
      by simp
    then show "fst (do_parse_command_line (pre @ t # rest) options outs)
           = Inl (Throw (UnexpectedValue t))"
      by (simp only: do_parse_throws)
  }
next
  let ?run = "do_parse_command_line argv options outs"
  assume h: "unrecognized_out outs \<noteq> None \<and> fst ?run = Inr ()"
  then obtain u0 where u0: "unrecognized_out outs = Some u0" by blast
  from h obtain nbv2 unrec2 where
    all: "parse_loop (unrecognized_out outs \<noteq> None) options argv (Map.empty, []) = Inr (nbv2, unrec2)"
    and out: "unrecognized_out (snd ?run)
      = (case unrecognized_out outs of None \<Rightarrow> None | Some _ \<Rightarrow> Some unrec2)"
    using do_parse_success [of argv options outs] by blast
  from all u0 have "parse_loop True options argv (Map.empty, []) = Inr (nbv2, unrec2)"
    by simp
  then have "unrec2 = unmatched options argv"
    using parse_loop_unmatched_list by fastforce
  with out u0 show "unrecognized_out (snd ?run) = Some (unmatched options argv)"
    by simp
next
  assume h: "(\<forall>x\<in>set argv. find_option x options = None) \<and> unrecognized_out outs \<noteq> None \<and>
        (\<forall>opt\<in>set options. names opt \<noteq> [])"
  then obtain u0 where u0: "unrecognized_out outs = Some u0" by auto
  from h have "parse_loop True options argv (Map.empty, []) = Inr (Map.empty, [] @ argv)"
    by (intro parse_loop_collect_all) simp
  moreover from h obtain nbv' where "insert_defaults options Map.empty = Inr nbv'"
    using insert_defaults_total [of options Map.empty] by auto
  ultimately have "do_parse_command_line argv options outs
    = (Inr (), \<lparr>unrecognized_out = Some argv, names_by_values_out = nbv'\<rparr>)"
    using u0 by (simp add: do_parse_command_line_def)
  then show "fst (do_parse_command_line argv options outs) = Inr ()"
    and "unrecognized_out (snd (do_parse_command_line argv options outs)) = Some argv"
    by simp_all
next
  show "looks_like_option_name s = (s \<noteq> [] \<and> hd s = CHR ''-'')"
    by (cases s) simp_all
qed

text \<open>
  The theorem on tokens that mix a repeatable \<^verbatim>\<open>--port\<close> with three unmatched tokens, and
  after the prefix \<^verbatim>\<open>--port 80\<close> with collection disabled.
\<close>

theorem unmatched_token_rules_witness:
  "unrecognized_out
     (snd (do_parse_command_line [''first'', ''--port'', ''80'', ''extra'', ''--port'', ''81'', ''-z'']
             [option_t1 [''--port''] OPTIONAL_REPEAT] (fresh_outputs True)))
     = Some [''first'', ''extra'', ''-z'']
   \<and> (\<exists>later. unrecognized_out
          (snd (do_parse_command_line
                  [''first'', ''--port'', ''80'', ''extra'', ''--port'', ''81'', ''-z'']
                  [option_t1 [''--port''] OPTIONAL_REPEAT] (fresh_outputs True)))
          = Some ([''first''] @ ''extra'' # later))
   \<and> names_by_values_out
        (snd (do_parse_command_line [''first'', ''--port'', ''80'', ''extra'', ''--port'', ''81'', ''-z'']
                [option_t1 [''--port''] OPTIONAL_REPEAT] (fresh_outputs True))) ''--port''
     = Some [''80'', ''81'']
   \<and> fst (do_parse_command_line [''--port'', ''80'', ''-z''] [option_t1 [''--port''] OPTIONAL_REPEAT]
            (fresh_outputs False))
     = Inl (Throw (UnrecognizedOption ''-z''))
   \<and> fst (do_parse_command_line [''--port'', ''80'', ''extra''] [option_t1 [''--port''] OPTIONAL_REPEAT]
            (fresh_outputs False))
     = Inl (Throw (UnexpectedValue ''extra''))"
proof -
  let ?os = "[option_t1 [''--port''] OPTIONAL_REPEAT]"
  let ?pre = "[''first'', ''--port'', ''80'']"
  let ?tail = "[''--port'', ''81'', ''-z'']"
  let ?nbv = "[''--port'' \<mapsto> [''80'']]"
  let ?run = "do_parse_command_line (?pre @ ''extra'' # ?tail) ?os (fresh_outputs True)"
  let ?short = "[''--port'', ''80'']"
  have hT: "parse_loop (unrecognized_out (fresh_outputs True) \<noteq> None) ?os ?pre (Map.empty, [])
              = Inr (?nbv, [''first'']) \<and> find_option ''extra'' ?os = None"
    and hF1: "parse_loop (unrecognized_out (fresh_outputs False) \<noteq> None) ?os ?short
              (Map.empty, []) = Inr (?nbv, []) \<and> find_option ''-z'' ?os = None"
    and hF2: "parse_loop (unrecognized_out (fresh_outputs False) \<noteq> None) ?os ?short
              (Map.empty, []) = Inr (?nbv, []) \<and> find_option ''extra'' ?os = None"
    by (simp_all add: fresh_outputs_def parse_loop.simps(2) slot_def SIZE_MAX_def)
  note a = unmatched_token_rules
    [of "fresh_outputs True" ?os ?pre ?nbv "[''first'']" "''extra''" ?tail,
     THEN conjunct1, THEN mp, OF hT]
  note b = unmatched_token_rules
    [of "fresh_outputs False" ?os ?short ?nbv "[]" "''-z''" "[]",
     THEN conjunct1, THEN mp, OF hF1]
  note c = unmatched_token_rules
    [of "fresh_outputs False" ?os ?short ?nbv "[]" "''extra''" "[]",
     THEN conjunct1, THEN mp, OF hF2]
  note d = unmatched_token_rules
    [of "fresh_outputs True" ?os _ _ _ _ _ "?pre @ ''extra'' # ?tail",
     THEN conjunct2, THEN conjunct1]
  have ok: "fst ?run = Inr ()"
    and ports: "names_by_values_out (snd ?run) ''--port'' = Some [''80'', ''81'']"
    by (simp_all add: do_parse_command_line_def fresh_outputs_def parse_loop.simps(2) slot_def
          map_insert_def SIZE_MAX_def)
  have collect: "unrecognized_out (fresh_outputs True) \<noteq> None"
    by (simp add: fresh_outputs_def)
  from a collect ok
  have "\<exists>later. unrecognized_out (snd ?run) = Some ([''first''] @ ''extra'' # later)"
    by blast
  moreover from d collect ok
  have "unrecognized_out (snd ?run) = Some (unmatched ?os (?pre @ ''extra'' # ?tail))"
    by blast
  then have "unrecognized_out (snd ?run) = Some [''first'', ''extra'', ''-z'']"
    by simp
  moreover have "fst (do_parse_command_line [''--port'', ''80'', ''-z''] ?os (fresh_outputs False))
     = Inl (Throw (UnrecognizedOption ''-z''))"
    using b by (simp add: fresh_outputs_def)
  moreover have "fst (do_parse_command_line [''--port'', ''80'', ''extra''] ?os (fresh_outputs False))
     = Inl (Throw (UnexpectedValue ''extra''))"
    using c by (simp add: fresh_outputs_def)
  ultimately show ?thesis using ports by simp
qed

text \<open>
  Claim C10. A parse failure is atomic: when \<^const>\<open>do_parse_command_line\<close> throws a
  parse error of any kind, the output map and the unrecognized output vector are as they
  were before the call.
\<close>

theorem parse_failure_leaves_outputs_unchanged:
  "fst (do_parse_command_line argv options outs) = Inl (Throw e) \<Longrightarrow>
     snd (do_parse_command_line argv options outs) = outs"
  by (simp add: do_parse_command_line_def split: sum.splits prod.splits)

text \<open>The theorem at a call that fails on its third token, with a map that is not empty.\<close>

theorem parse_failure_leaves_outputs_unchanged_witness:
  "fst (do_parse_command_line [''--port'', ''80'', ''--bogus''] [option_t1 [''--port''] OPTIONAL]
          \<lparr>unrecognized_out = None, names_by_values_out = [''k'' \<mapsto> [''v'']]\<rparr>)
     = Inl (Throw (UnrecognizedOption ''--bogus''))
   \<and> snd (do_parse_command_line [''--port'', ''80'', ''--bogus''] [option_t1 [''--port''] OPTIONAL]
          \<lparr>unrecognized_out = None, names_by_values_out = [''k'' \<mapsto> [''v'']]\<rparr>)
     = \<lparr>unrecognized_out = None, names_by_values_out = [''k'' \<mapsto> [''v'']]\<rparr>"
proof -
  let ?outs = "\<lparr>unrecognized_out = None, names_by_values_out = [''k'' \<mapsto> [''v'']]\<rparr>"
  have "fst (do_parse_command_line [''--port'', ''80'', ''--bogus''] [option_t1 [''--port''] OPTIONAL] ?outs)
     = Inl (Throw (UnrecognizedOption ''--bogus''))"
    by (simp add: do_parse_command_line_def parse_loop.simps(2) slot_def)
  with parse_failure_leaves_outputs_unchanged [OF this] show ?thesis
    by simp
qed

lemma find_option_min_update:
  "find_option t (map (min_appearances_update f) os)
     = map_option (min_appearances_update f) (find_option t os)"
  by (induction os) simp_all

lemma parse_loop_min_update:
  "parse_loop c (map (min_appearances_update f) os) argv st = parse_loop c os argv st"
proof (induction c os argv st rule: parse_loop.induct)
  case (1 c os st)
  show ?case by simp
next
  case (2 c os x argv nbv unrec)
  show ?case
  proof (cases "find_option x os")
    case None
    with 2 show ?thesis
      by (simp add: parse_loop.simps(2) find_option_min_update)
  next
    case (Some opt)
    then obtain n ns where n: "names opt = n # ns"
      using find_option_names by blast
    show ?thesis
    proof (cases argv)
      case Nil
      with 2 Some n show ?thesis
        by (simp add: parse_loop.simps(2) find_option_min_update)
    next
      case (Cons p argv')
      with 2 Some n show ?thesis
        by (simp add: parse_loop.simps(2) find_option_min_update)
    qed
  qed
qed

lemma parse_loop_absent_key:
  assumes run: "parse_loop c os argv (Map.empty, []) = Inr (nbv, unrec)"
    and absent: "\<forall>opt'\<in>set os. names opt' \<noteq> [] \<and> hd (names opt') = k \<longrightarrow> set (names opt') \<inter> set argv = {}"
  shows "nbv k = None"
proof (rule ccontr)
  assume "nbv k \<noteq> None"
  then have "k \<in> dom nbv" by auto
  then have "k \<in> set (occurrences os argv)"
    using parse_loop_dom [OF run] by simp
  then obtain t opt' where t: "t \<in> set argv" "find_option t os = Some opt'" "hd (names opt') = k"
    using occurrences_matched by blast
  from t(2) have "opt' \<in> set os" "t \<in> set (names opt')"
    using find_option_Some by blast+
  with absent t show False by auto
qed

text \<open>
  Claim C1 fails as stated when two declarations share a canonical name. With
  \<^verbatim>\<open>--a\<close>/\<^verbatim>\<open>-m\<close> and \<^verbatim>\<open>--a\<close> both declared \<open>OPTIONAL\<close> and the tokens
  \<^verbatim>\<open>-m v\<close>, the second declaration has \<open>min_appearances = 0\<close> and none of its names
  occurs, yet its canonical name maps to \<^verbatim>\<open>["v"]\<close>, not to its (empty) default values.
\<close>

theorem absent_optional_defaults_counterexample:
  "fst (do_parse_command_line [''-m'', ''v'']
          [option_t1 [''--a'', ''-m''] OPTIONAL, option_t1 [''--a''] OPTIONAL] (fresh_outputs False))
     = Inr ()
   \<and> option_t1 [''--a''] OPTIONAL
        \<in> set [option_t1 [''--a'', ''-m''] OPTIONAL, option_t1 [''--a''] OPTIONAL]
   \<and> min_appearances (option_t1 [''--a''] OPTIONAL) = 0
   \<and> set (names (option_t1 [''--a''] OPTIONAL)) \<inter> set [''-m'', ''v''] = {}
   \<and> names_by_values_out
        (snd (do_parse_command_line [''-m'', ''v'']
                [option_t1 [''--a'', ''-m''] OPTIONAL, option_t1 [''--a''] OPTIONAL]
                (fresh_outputs False)))
        (hd (names (option_t1 [''--a''] OPTIONAL)))
       = Some [''v'']
   \<and> names_by_values_out
        (snd (do_parse_command_line [''-m'', ''v'']
                [option_t1 [''--a'', ''-m''] OPTIONAL, option_t1 [''--a''] OPTIONAL]
                (fresh_outputs False)))
        (hd (names (option_t1 [''--a''] OPTIONAL)))
       \<noteq> Some (default_values (option_t1 [''--a''] OPTIONAL))"
  by (simp add: do_parse_command_line_def fresh_outputs_def parse_loop.simps(2) slot_def
        map_insert_def)

text \<open>
  Claim C1, amended. On every successful parse, every declared option with
  \<open>min_appearances = 0\<close>, none of whose names occurs among the tokens and whose canonical
  name is the canonical name of no other declared option, has its canonical name mapped
  to its \<open>default_values\<close>: the empty sequence for an option built without a default,
  the one-element sequence of the default for an option built with one. Every value
  recorded by the pass over the tokens is in the result unchanged: defaults never
  overwrite.
\<close>

theorem absent_optional_gets_defaults:
  assumes "do_parse_command_line argv options outs = (Inr (), outs')"
  shows "(opt \<in> set options \<and> min_appearances opt = 0 \<and> set (names opt) \<inter> set argv = {} \<and>
          (\<forall>opt'\<in>set options. names opt' \<noteq> [] \<and> hd (names opt') = hd (names opt) \<longrightarrow> opt' = opt)
            \<longrightarrow> names opt \<noteq> [] \<and>
                names_by_values_out outs' (hd (names opt)) = Some (default_values opt))
       \<and> (parse_loop (unrecognized_out outs \<noteq> None) options argv (Map.empty, []) = Inr (nbv, unrec) \<and>
          nbv k = Some v \<longrightarrow> names_by_values_out outs' k = Some v)
       \<and> default_values (option_t1 ns appearance) = []
       \<and> (option_t2 ns appearance default_value = Some opt2 \<longrightarrow>
            default_values opt2 = [default_value] \<and> min_appearances opt2 = 0)"
proof (intro conjI impI)
  let ?c = "unrecognized_out outs \<noteq> None"
  from assms obtain nbv0 unrec0 nbv' where
    run: "parse_loop ?c options argv (Map.empty, []) = Inr (nbv0, unrec0)"
    and dfl: "insert_defaults options nbv0 = Inr nbv'"
    and out: "names_by_values_out outs' = nbv'"
    unfolding do_parse_returns by auto
  {
    assume h: "opt \<in> set options \<and> min_appearances opt = 0 \<and> set (names opt) \<inter> set argv = {} \<and>
          (\<forall>opt'\<in>set options. names opt' \<noteq> [] \<and> hd (names opt') = hd (names opt) \<longrightarrow> opt' = opt)"
    then have mem: "opt \<in> set options" and min0: "min_appearances opt = 0"
      and unseen: "set (names opt) \<inter> set argv = {}"
      and uniq: "\<And>opt'. opt' \<in> set options \<Longrightarrow> names opt' \<noteq> [] \<Longrightarrow>
                   hd (names opt') = hd (names opt) \<Longrightarrow> opt' = opt"
      by blast+
    have named: "\<forall>opt\<in>set options. min_appearances opt = 0 \<longrightarrow> names opt \<noteq> []"
      using dfl insert_defaults_total [of options nbv0] by blast
    with mem min0 show "names opt \<noteq> []" by blast
    have "\<forall>opt'\<in>set options. names opt' \<noteq> [] \<and> hd (names opt') = hd (names opt)
            \<longrightarrow> set (names opt') \<inter> set argv = {}"
      using uniq unseen by blast
    with run have "nbv0 (hd (names opt)) = None"
      by (rule parse_loop_absent_key)
    with dfl have look: "nbv' (hd (names opt)) = map_option default_values
        (find (\<lambda>opt'. min_appearances opt' = 0 \<and> hd (names opt') = hd (names opt)) options)"
      by (rule insert_defaults_new)
    from mem min0 obtain opt' where
      f: "find (\<lambda>opt'. min_appearances opt' = 0 \<and> hd (names opt') = hd (names opt)) options = Some opt'"
      by (cases "find (\<lambda>opt'. min_appearances opt' = 0 \<and> hd (names opt') = hd (names opt)) options")
         (auto simp: find_None_iff)
    then have "opt' \<in> set options" "min_appearances opt' = 0" "hd (names opt') = hd (names opt)"
      by (auto simp: find_Some_iff)
    with named uniq have "opt' = opt" by blast
    with look f out show "names_by_values_out outs' (hd (names opt)) = Some (default_values opt)"
      by simp
  }
  {
    assume "parse_loop ?c options argv (Map.empty, []) = Inr (nbv, unrec) \<and> nbv k = Some v"
    with run have "nbv0 k = Some v" by simp
    with dfl out show "names_by_values_out outs' k = Some v"
      by (simp add: insert_defaults_keeps)
  }
next
  show "default_values (option_t1 ns appearance) = []"
    by (cases appearance) simp_all
next
  assume "option_t2 ns appearance default_value = Some opt2"
  then show "default_values opt2 = [default_value]" and "min_appearances opt2 = 0"
    by (cases appearance; auto)+
qed

text \<open>
  The theorem at \<^verbatim>\<open>--host example\<close>, with \<^verbatim>\<open>--port\<close> declared optional with default
  \<^verbatim>\<open>8080\<close> and the flag \<^verbatim>\<open>--verbose\<close>.
\<close>

theorem absent_optional_gets_defaults_witness:
  "option_t2 [''--port'', ''-p''] OPTIONAL ''8080''
     = Some \<lparr>names = [''--port'', ''-p''], default_values = [''8080''],
             min_appearances = 0, max_appearances = 1, no_parameter = False\<rparr>
   \<and> names_by_values_out
        (snd (do_parse_command_line [''--host'', ''example'']
                [\<lparr>names = [''--port'', ''-p''], default_values = [''8080''],
                    min_appearances = 0, max_appearances = 1, no_parameter = False\<rparr>,
                 option_t1 [''--verbose''] OPTIONAL_NO_PARAMETER,
                 option_t1 [''--host''] MANDATORY]
                (fresh_outputs False)))
        ''--port'' = Some [''8080'']
   \<and> names_by_values_out
        (snd (do_parse_command_line [''--host'', ''example'']
                [\<lparr>names = [''--port'', ''-p''], default_values = [''8080''],
                    min_appearances = 0, max_appearances = 1, no_parameter = False\<rparr>,
                 option_t1 [''--verbose''] OPTIONAL_NO_PARAMETER,
                 option_t1 [''--host''] MANDATORY]
                (fresh_outputs False)))
        ''--verbose'' = Some []
   \<and> names_by_values_out
        (snd (do_parse_command_line [''--host'', ''example'']
                [\<lparr>names = [''--port'', ''-p''], default_values = [''8080''],
                    min_appearances = 0, max_appearances = 1, no_parameter = False\<rparr>,
                 option_t1 [''--verbose''] OPTIONAL_NO_PARAMETER,
                 option_t1 [''--host''] MANDATORY]
                (fresh_outputs False)))
        ''--host'' = Some [''example'']"
proof -
  let ?port = "\<lparr>names = [''--port'', ''-p''], default_values = [''8080''],
                min_appearances = 0, max_appearances = 1, no_parameter = False\<rparr>"
  let ?verbose = "option_t1 [''--verbose''] OPTIONAL_NO_PARAMETER"
  let ?os = "[?port, ?verbose, option_t1 [''--host''] MANDATORY]"
  let ?argv = "[''--host'', ''example'']"
  let ?run = "do_parse_command_line ?argv ?os (fresh_outputs False)"
  have loop: "parse_loop (unrecognized_out (fresh_outputs False) \<noteq> None) ?os ?argv (Map.empty, [])
      = Inr ([''--host'' \<mapsto> [''example'']], [])"
    by (simp add: fresh_outputs_def parse_loop.simps(2) slot_def)
  have "fst ?run = Inr ()"
    by (simp add: do_parse_command_line_def fresh_outputs_def parse_loop.simps(2) slot_def)
  then have ok: "?run = (Inr (), snd ?run)"
    by (simp add: prod_eq_iff)
  have p: "?port \<in> set ?os \<and> min_appearances ?port = 0 \<and> set (names ?port) \<inter> set ?argv = {} \<and>
          (\<forall>opt'\<in>set ?os. names opt' \<noteq> [] \<and> hd (names opt') = hd (names ?port) \<longrightarrow> opt' = ?port)"
    by simp
  have v: "?verbose \<in> set ?os \<and> min_appearances ?verbose = 0 \<and> set (names ?verbose) \<inter> set ?argv = {} \<and>
          (\<forall>opt'\<in>set ?os. names opt' \<noteq> [] \<and> hd (names opt') = hd (names ?verbose) \<longrightarrow> opt' = ?verbose)"
    by simp
  have h: "parse_loop (unrecognized_out (fresh_outputs False) \<noteq> None) ?os ?argv (Map.empty, [])
      = Inr ([''--host'' \<mapsto> [''example'']], []) \<and>
     [''--host'' \<mapsto> [''example'']] ''--host'' = Some [''example'']"
    using loop by simp
  note inst = absent_optional_gets_defaults [OF ok]
  from inst [of ?port, THEN conjunct1, rule_format, OF p]
       inst [of ?verbose, THEN conjunct1, rule_format, OF v]
       inst [of _ "[''--host'' \<mapsto> [''example'']]" "[]" "''--host''" "[''example'']",
             THEN conjunct2, THEN conjunct1, rule_format, OF h]
  show ?thesis by simp
qed

text \<open>
  Claim C5 fails as stated when a mandatory declaration shares its canonical name with an
  optional one: with \<^verbatim>\<open>--a\<close> declared \<open>OPTIONAL\<close> and \<^verbatim>\<open>--a\<close>/\<^verbatim>\<open>-b\<close> declared
  \<open>MANDATORY\<close>, parsing no tokens succeeds and the canonical name of the mandatory
  option, which never appeared, is in the result map.
\<close>

theorem absent_mandatory_counterexample:
  "fst (do_parse_command_line []
          [option_t1 [''--a''] OPTIONAL, option_t1 [''--a'', ''-b''] MANDATORY] (fresh_outputs False))
     = Inr ()
   \<and> option_t1 [''--a'', ''-b''] MANDATORY
        \<in> set [option_t1 [''--a''] OPTIONAL, option_t1 [''--a'', ''-b''] MANDATORY]
   \<and> 1 \<le> min_appearances (option_t1 [''--a'', ''-b''] MANDATORY)
   \<and> set (names (option_t1 [''--a'', ''-b''] MANDATORY)) \<inter> set [] = {}
   \<and> names_by_values_out
        (snd (do_parse_command_line []
                [option_t1 [''--a''] OPTIONAL, option_t1 [''--a'', ''-b''] MANDATORY]
                (fresh_outputs False)))
        (hd (names (option_t1 [''--a'', ''-b''] MANDATORY)))
       = Some []"
  by (simp add: do_parse_command_line_def fresh_outputs_def map_insert_def)

text \<open>
  Claim C5, amended. The parser never fails because a mandatory option is absent: when
  every declared option has a name, parsing the empty token sequence succeeds, and so does
  every call whose pass over the tokens succeeds; which parse error a call throws does not
  depend on the \<open>min_appearances\<close> of the declarations. A declared option with
  \<open>min_appearances \<ge> 1\<close> none of whose names occurs among the tokens is absent from the
  result map, provided its canonical name is the canonical name of no other declared option.
\<close>

theorem absent_mandatory_is_no_error:
  "((\<forall>opt\<in>set options. names opt \<noteq> []) \<longrightarrow>
      fst (do_parse_command_line [] options outs) = Inr ())
   \<and> ((\<forall>opt\<in>set options. names opt \<noteq> []) \<and>
       parse_loop (unrecognized_out outs \<noteq> None) options argv (Map.empty, []) = Inr st \<longrightarrow>
         fst (do_parse_command_line argv options outs) = Inr ())
   \<and> (fst (do_parse_command_line argv (map (min_appearances_update f) options) outs) = Inl (Throw e)
         \<longleftrightarrow> fst (do_parse_command_line argv options outs) = Inl (Throw e))
   \<and> (do_parse_command_line argv options outs = (Inr (), outs') \<and>
       opt \<in> set options \<and> 1 \<le> min_appearances opt \<and> names opt \<noteq> [] \<and>
       set (names opt) \<inter> set argv = {} \<and>
       (\<forall>opt'\<in>set options. names opt' \<noteq> [] \<and> hd (names opt') = hd (names opt) \<longrightarrow> opt' = opt)
         \<longrightarrow> names_by_values_out outs' (hd (names opt)) = None)"
proof (intro conjI impI)
  let ?c = "unrecognized_out outs \<noteq> None"
  have after_loop: "fst (do_parse_command_line argv options outs) = Inr ()"
    if "\<forall>opt\<in>set options. names opt \<noteq> []"
      and "parse_loop ?c options argv (Map.empty, []) = Inr st" for argv st
  proof -
    obtain nbv unrec where st: "st = (nbv, unrec)" by (cases st)
    from that(1) obtain nbv' where "insert_defaults options nbv = Inr nbv'"
      using insert_defaults_total [of options nbv] by blast
    with that(2) st show ?thesis
      by (simp add: do_parse_command_line_def)
  qed
  {
    assume "\<forall>opt\<in>set options. names opt \<noteq> []"
    then show "fst (do_parse_command_line [] options outs) = Inr ()"
      by (rule after_loop) simp
  }
  {
    assume "(\<forall>opt\<in>set options. names opt \<noteq> []) \<and> parse_loop ?c options argv (Map.empty, []) = Inr st"
    then show "fst (do_parse_command_line argv options outs) = Inr ()"
      using after_loop by blast
  }
  show "fst (do_parse_command_line argv (map (min_appearances_update f) options) outs) = Inl (Throw e)
         \<longleftrightarrow> fst (do_parse_command_line argv options outs) = Inl (Throw e)"
    by (simp only: do_parse_throws parse_loop_min_update)
next
  let ?c = "unrecognized_out outs \<noteq> None"
  assume h: "do_parse_command_line argv options outs = (Inr (), outs') \<and>
       opt \<in> set options \<and> 1 \<le> min_appearances opt \<and> names opt \<noteq> [] \<and>
       set (names opt) \<inter> set argv = {} \<and>
       (\<forall>opt'\<in>set options. names opt' \<noteq> [] \<and> hd (names opt') = hd (names opt) \<longrightarrow> opt' = opt)"
  then obtain nbv0 unrec0 nbv' where
    run: "parse_loop ?c options argv (Map.empty, []) = Inr (nbv0, unrec0)"
    and dfl: "insert_defaults options nbv0 = Inr nbv'"
    and out: "names_by_values_out outs' = nbv'"
    unfolding do_parse_returns by auto
  from h have mem: "opt \<in> set options" and min1: "1 \<le> min_appearances opt"
    and unseen: "set (names opt) \<inter> set argv = {}"
    and uniq: "\<And>opt'. opt' \<in> set options \<Longrightarrow> names opt' \<noteq> [] \<Longrightarrow>
                 hd (names opt') = hd (names opt) \<Longrightarrow> opt' = opt"
    by blast+
  have named: "\<forall>opt\<in>set options. min_appearances opt = 0 \<longrightarrow> names opt \<noteq> []"
    using dfl insert_defaults_total [of options nbv0] by blast
  have "\<forall>opt'\<in>set options. names opt' \<noteq> [] \<and> hd (names opt') = hd (names opt)
          \<longrightarrow> set (names opt') \<inter> set argv = {}"
    using uniq unseen by blast
  with run have "nbv0 (hd (names opt)) = None"
    by (rule parse_loop_absent_key)
  with dfl have look: "nbv' (hd (names opt)) = map_option default_values
      (find (\<lambda>opt'. min_appearances opt' = 0 \<and> hd (names opt') = hd (names opt)) options)"
    by (rule insert_defaults_new)
  have "find (\<lambda>opt'. min_appearances opt' = 0 \<and> hd (names opt') = hd (names opt)) options = None"
  proof (rule ccontr)
    assume "find (\<lambda>opt'. min_appearances opt' = 0 \<and> hd (names opt') = hd (names opt)) options \<noteq> None"
    then obtain opt' where "opt' \<in> set options" "min_appearances opt' = 0"
      "hd (names opt') = hd (names opt)"
      by (auto simp: find_None_iff)
    with named uniq have "opt' = opt" by blast
    with \<open>min_appearances opt' = 0\<close> min1 show False by simp
  qed
  with look out show "names_by_values_out outs' (hd (names opt)) = None"
    by simp
qed

text \<open>The theorem with a mandatory \<^verbatim>\<open>--host\<close> that the tokens never mention.\<close>

theorem absent_mandatory_is_no_error_witness:
  "fst (do_parse_command_line []
          [option_t1 [''--host''] MANDATORY, option_t1 [''--verbose''] OPTIONAL_NO_PARAMETER]
          (fresh_outputs False)) = Inr ()
   \<and> names_by_values_out
        (snd (do_parse_command_line [''--verbose'']
                [option_t1 [''--host''] MANDATORY, option_t1 [''--verbose''] OPTIONAL_NO_PARAMETER]
                (fresh_outputs False)))
        ''--host'' = None"
proof -
  let ?host = "option_t1 [''--host''] MANDATORY"
  let ?os = "[?host, option_t1 [''--verbose''] OPTIONAL_NO_PARAMETER]"
  let ?run = "do_parse_command_line [''--verbose''] ?os (fresh_outputs False)"
  note inst = absent_mandatory_is_no_error [of ?os "fresh_outputs False" "[''--verbose'']"]
  have named: "\<forall>opt\<in>set ?os. names opt \<noteq> []"
    by simp
  have "fst ?run = Inr ()"
    by (simp add: do_parse_command_line_def fresh_outputs_def parse_loop.simps(2) slot_def)
  then have "?run = (Inr (), snd ?run)"
    by (simp add: prod_eq_iff)
  then have h: "?run = (Inr (), snd ?run) \<and>
       ?host \<in> set ?os \<and> 1 \<le> min_appearances ?host \<and> names ?host \<noteq> [] \<and>
       set (names ?host) \<inter> set [''--verbose''] = {} \<and>
       (\<forall>opt'\<in>set ?os. names opt' \<noteq> [] \<and> hd (names opt') = hd (names ?host) \<longrightarrow> opt' = ?host)"
    by simp
  from inst [THEN conjunct1, THEN mp, OF named]
       inst [of _ _ _ "snd ?run" ?host, THEN conjunct2, THEN conjunct2, THEN conjunct2,
             rule_format, OF h]
  show ?thesis by simp
qed

section \<open>Facts about word wrapping and the formatter\<close>

lemma split_by_spaces_blank:
  "\<forall>c\<in>set s. isspace c \<Longrightarrow> split_by_spaces s = []"
proof -
  assume "\<forall>c\<in>set s. isspace c"
  then have "dropWhile isspace s = []" by simp
  then show ?thesis by (simp only: split_by_spaces.simps [of s] list.case)
qed

lemma split_by_spaces_words:
  "w \<in> set (split_by_spaces s) \<Longrightarrow> w \<noteq> [] \<and> (\<forall>c\<in>set w. \<not> isspace c)"
proof (induction s rule: split_by_spaces.induct)
  case (1 s)
  show ?case
  proof (cases "dropWhile isspace s")
    case Nil
    then have "split_by_spaces s = []"
      by (simp only: split_by_spaces.simps [of s] list.case)
    with "1.prems" show ?thesis by simp
  next
    case (Cons c cs)
    have "\<not> isspace (hd (dropWhile isspace s))"
      by (rule hd_dropWhile) (simp add: Cons)
    then have c: "\<not> isspace c"
      by (simp add: Cons)
    let ?word = "takeWhile (\<lambda>x. \<not> isspace x) (c # cs)"
    let ?rest = "dropWhile (\<lambda>x. \<not> isspace x) (c # cs)"
    have "split_by_spaces s = ?word # split_by_spaces ?rest"
      by (simp only: split_by_spaces.simps [of s] Cons list.case)
    with "1.prems" have "w = ?word \<or> w \<in> set (split_by_spaces ?rest)"
      by (simp only: set_ConsD)
    then show ?thesis
    proof
      assume w: "w = ?word"
      have "\<forall>x\<in>set ?word. \<not> isspace x"
        by (auto dest: set_takeWhileD)
      moreover from c have "?word \<noteq> []" by simp
      ultimately show ?thesis unfolding w by blast
    next
      assume "w \<in> set (split_by_spaces ?rest)"
      then show ?thesis by (rule "1.IH" [OF Cons])
    qed
  qed
qed

lemma word_wrap_loop_lines:
  assumes "\<forall>l\<in>set ret. length l \<le> width \<or> l \<in> W"
    and "length current_line \<le> width \<or> current_line \<in> W \<or> current_line = []"
    and "set words \<subseteq> W"
    and "word_wrap_loop width words ret current_line = (ret', current_line')"
  shows "(\<forall>l\<in>set ret'. length l \<le> width \<or> l \<in> W) \<and>
         (length current_line' \<le> width \<or> current_line' \<in> W \<or> current_line' = [])"
  using assms
proof (induction words arbitrary: ret current_line)
  case Nil
  then show ?case by simp
next
  case (Cons it words)
  from Cons.prems(3) have it: "it \<in> W" and rest: "set words \<subseteq> W" by simp_all
  show ?case
  proof (cases "current_line = []")
    case True
    with Cons.prems(4) have "word_wrap_loop width words ret it = (ret', current_line')" by simp
    with Cons.IH [OF Cons.prems(1) _ rest] it show ?thesis by blast
  next
    case False
    show ?thesis
    proof (cases "length current_line + 1 + length it \<le> width")
      case True
      with False Cons.prems(4)
      have "word_wrap_loop width words ret (current_line @ [CHR '' ''] @ it) = (ret', current_line')"
        by simp
      moreover from True have "length (current_line @ [CHR '' ''] @ it) \<le> width" by simp
      ultimately show ?thesis
        using Cons.IH [OF Cons.prems(1) _ rest] by blast
    next
      case over: False
      with False Cons.prems(4)
      have "word_wrap_loop width words (ret @ [current_line]) it = (ret', current_line')"
        by simp
      moreover from Cons.prems(1,2) False
      have "\<forall>l\<in>set (ret @ [current_line]). length l \<le> width \<or> l \<in> W" by auto
      ultimately show ?thesis
        using Cons.IH [OF _ _ rest] it by blast
    qed
  qed
qed

section \<open>Claims about word wrapping\<close>

lemma split_abcd:
  "split_by_spaces ''abcd'' = [''abcd'']"
  by code_simp

lemma split_a_b_c:
  "split_by_spaces ''a b c'' = [''a'', ''b'', ''c'']"
  by code_simp

text \<open>
  Claim C6 fails as stated: a word longer than the width is a line of its own.
\<close>

theorem word_wrap_line_width_counterexample:
  "''abcd'' \<in> set (word_wrap ''abcd'' 3) \<and> \<not> length ''abcd'' \<le> (3::nat)"
  by (simp add: word_wrap_def split_abcd)

text \<open>
  Claim C6, amended. Every line returned by \<^const>\<open>word_wrap\<close> has length at most the
  width, or is a single word of the input (a non-empty run of characters without
  whitespace); so when no word is longer than the width, no line is.
\<close>

theorem word_wrap_line_width:
  "(\<forall>l\<in>set (word_wrap s w). length l \<le> w \<or> l \<in> set (split_by_spaces s))
   \<and> (\<forall>x\<in>set (split_by_spaces s). x \<noteq> [] \<and> (\<forall>c\<in>set x. \<not> isspace c))
   \<and> ((\<forall>x\<in>set (split_by_spaces s). length x \<le> w) \<longrightarrow> (\<forall>l\<in>set (word_wrap s w). length l \<le> w))"
proof -
  obtain ret current_line where
    loop: "word_wrap_loop w (split_by_spaces s) [] [] = (ret, current_line)"
    by (cases "word_wrap_loop w (split_by_spaces s) [] []")
  then have lines: "word_wrap s w = ret @ [current_line]"
    by (simp add: word_wrap_def)
  have "(\<forall>l\<in>set ret. length l \<le> w \<or> l \<in> set (split_by_spaces s)) \<and>
        (length current_line \<le> w \<or> current_line \<in> set (split_by_spaces s) \<or> current_line = [])"
    by (rule word_wrap_loop_lines [OF _ _ _ loop]) simp_all
  then have a: "\<forall>l\<in>set (word_wrap s w). length l \<le> w \<or> l \<in> set (split_by_spaces s)"
    unfolding lines by auto
  have b: "\<forall>x\<in>set (split_by_spaces s). x \<noteq> [] \<and> (\<forall>c\<in>set x. \<not> isspace c)"
    using split_by_spaces_words by blast
  from a have "(\<forall>x\<in>set (split_by_spaces s). length x \<le> w) \<longrightarrow> (\<forall>l\<in>set (word_wrap s w). length l \<le> w)"
    by blast
  with a b show ?thesis by blast
qed

text \<open>The theorem at \<^verbatim>\<open>"aa bb cc"\<close> and width 5.\<close>

theorem word_wrap_line_width_witness:
  "length ''aa bb'' \<le> (5::nat) \<and> length ''cc'' \<le> (5::nat)
   \<and> word_wrap ''aa bb cc'' 5 = [''aa bb'', ''cc'']"
proof -
  have s: "split_by_spaces ''aa bb cc'' = [''aa'', ''bb'', ''cc'']"
    by code_simp
  then have w: "word_wrap ''aa bb cc'' 5 = [''aa bb'', ''cc'']"
    by (simp add: word_wrap_def)
  have "\<forall>x\<in>set (split_by_spaces ''aa bb cc''). length x \<le> 5"
    unfolding s by simp
  with word_wrap_line_width [of "''aa bb cc''" 5]
  have "\<forall>l\<in>set (word_wrap ''aa bb cc'' 5). length l \<le> 5"
    by blast
  with w show ?thesis by simp
qed

text \<open>
  Claim C7 fails as stated: \<^verbatim>\<open>"a b"\<close> has three characters and fits a line of width 3.
\<close>

theorem word_wrap_a_b_c_counterexample:
  "word_wrap ''a b c'' 3 \<noteq> [''a'', ''b'', ''c'']"
  by (simp add: word_wrap_def split_a_b_c)

text \<open>
  Claim C7, amended. \<^verbatim>\<open>word_wrap("a b c", 3)\<close> returns the two lines \<^verbatim>\<open>"a b"\<close> and
  \<^verbatim>\<open>"c"\<close>.
\<close>

theorem word_wrap_a_b_c:
  "word_wrap ''a b c'' 3 = [''a b'', ''c'']"
  by (simp add: word_wrap_def split_a_b_c)

text \<open>
  Claim C8. For every width, \<^const>\<open>word_wrap\<close> of a string with no character other than
  whitespace, the empty string included, returns exactly one empty line; in particular
  \<^verbatim>\<open>word_wrap("", 10)\<close> does.
\<close>

theorem word_wrap_blank:
  "((\<forall>c\<in>set s. isspace c) \<longrightarrow> word_wrap s w = [[]]) \<and> word_wrap [] 10 = [[]]"
  by (simp add: word_wrap_def split_by_spaces_blank)

text \<open>The theorem at a string of a space, a tab and a space.\<close>

theorem word_wrap_blank_witness:
  "isspace CHR '' '' \<and> isspace (CHR 0x09) \<and> word_wrap [CHR '' '', CHR 0x09, CHR '' ''] 7 = [[]]"
proof -
  have "\<forall>c\<in>set [CHR '' '', CHR 0x09, CHR '' '']. isspace c"
    by (simp add: isspace_def)
  with word_wrap_blank [of "[CHR '' '', CHR 0x09, CHR '' '']" 7] show ?thesis
    by (simp add: isspace_def)
qed

section \<open>Claims about the help formatter\<close>

lemma fold_max_lines_ge:
  "m \<le> fold (\<lambda>line m'. max m' (length (syntax_description line))) lines m"
  by (induction lines arbitrary: m) (auto intro: order_trans [OF max.cobounded1])

lemma fold_max_lines_bound:
  "line \<in> set lines \<Longrightarrow>
     length (syntax_description line)
       \<le> fold (\<lambda>line m'. max m' (length (syntax_description line))) lines m"
proof (induction lines arbitrary: m)
  case Nil
  then show ?case by simp
next
  case (Cons x lines)
  show ?case
  proof (cases "line = x")
    case True
    have "length (syntax_description x) \<le> max m (length (syntax_description x))" by simp
    also have "\<dots> \<le> fold (\<lambda>line m'. max m' (length (syntax_description line))) lines
                      (max m (length (syntax_description x)))"
      by (rule fold_max_lines_ge)
    finally show ?thesis using True by simp
  next
    case False
    with Cons.prems have "line \<in> set lines" by simp
    then show ?thesis by (simp add: Cons.IH)
  qed
qed

lemma fold_max_sections_ge:
  "m \<le> fold (\<lambda>section m. fold (\<lambda>line m'. max m' (length (syntax_description line)))
                              (help_lines section) m) hs m"
proof (induction hs arbitrary: m)
  case Nil
  show ?case by simp
next
  case (Cons x hs)
  have "m \<le> fold (\<lambda>line m'. max m' (length (syntax_description line))) (help_lines x) m"
    by (rule fold_max_lines_ge)
  also note Cons.IH
  finally show ?case by simp
qed

lemma fold_max_sections_bound:
  "section \<in> set hs \<Longrightarrow> line \<in> set (help_lines section) \<Longrightarrow>
     length (syntax_description line)
       \<le> fold (\<lambda>section m. fold (\<lambda>line m'. max m' (length (syntax_description line)))
                                (help_lines section) m) hs m"
proof (induction hs arbitrary: m)
  case Nil
  then show ?case by simp
next
  case (Cons x hs)
  show ?case
  proof (cases "section = x")
    case True
    with Cons.prems have "length (syntax_description line)
        \<le> fold (\<lambda>line m'. max m' (length (syntax_description line))) (help_lines x) m"
      by (simp add: fold_max_lines_bound)
    also note fold_max_sections_ge
    finally show ?thesis by simp
  next
    case False
    with Cons.prems have "section \<in> set hs" by simp
    then show ?thesis using Cons.prems(2) by (simp add: Cons.IH)
  qed
qed

lemma syntax_description_bound:
  "section \<in> set help \<Longrightarrow> line \<in> set (help_lines section) \<Longrightarrow>
     length (syntax_description line) \<le> max_syntax_description_length help"
  unfolding max_syntax_description_length_def by (rule fold_max_sections_bound)

lemma format_parts_returns:
  "(i = 0 \<longrightarrow> 2 + length (syntax_description line) \<le> indent) \<Longrightarrow>
     \<exists>out. format_parts indent line i parts ret = Inr out"
  by (induction parts arbitrary: i ret) auto

lemma format_lines_returns:
  "\<forall>line\<in>set lines. 2 + length (syntax_description line) \<le> indent \<Longrightarrow>
     \<exists>out. format_lines summary indent lines ret = Inr out"
proof (induction lines arbitrary: ret)
  case Nil
  show ?case by simp
next
  case (Cons line lines)
  from Cons.prems obtain ret' where
    "format_parts indent line 0 (word_wrap (blurb line) summary) ret = Inr ret'"
    using format_parts_returns [of 0 line indent "word_wrap (blurb line) summary" ret]
    by auto
  with Cons show ?case by simp
qed

lemma format_sections_returns:
  "\<forall>section\<in>set hs. \<forall>line\<in>set (help_lines section).
      2 + length (syntax_description line) \<le> indent \<Longrightarrow>
     \<exists>out. format_sections summary indent hs ret = Inr out"
proof (induction hs arbitrary: ret)
  case Nil
  show ?case by simp
next
  case (Cons s hs)
  from Cons.prems obtain ret' where
    "format_lines summary indent (help_lines s)
       (ret @ section_name s @ '':'' @ [newline]) = Inr ret'"
    using format_lines_returns
            [of "help_lines s" indent summary "ret @ section_name s @ '':'' @ [newline]"]
    by auto
  with Cons show ?case by simp
qed

text \<open>
  Claim C9. \<^const>\<open>format_help\<close> returns a string for every list of sections: the
  padding count never underflows, because the syntax description of every line is at most
  \<^const>\<open>max_syntax_description_length\<close> long and the indent is that length plus 4.
\<close>

theorem format_help_total:
  "(\<exists>out. format_help help = Inr out)
   \<and> (\<forall>section\<in>set help. \<forall>line\<in>set (help_lines section).
        length (syntax_description line) \<le> max_syntax_description_length help \<and>
        2 + length (syntax_description line)
          \<le> indent_width (max_syntax_description_length help))
   \<and> indent_width (max_syntax_description_length help) = 4 + max_syntax_description_length help"
proof -
  have bound: "\<forall>section\<in>set help. \<forall>line\<in>set (help_lines section).
        length (syntax_description line) \<le> max_syntax_description_length help"
    using syntax_description_bound by blast
  have pad: "\<forall>section\<in>set help. \<forall>line\<in>set (help_lines section).
        2 + length (syntax_description line) \<le> indent_width (max_syntax_description_length help)"
  proof (intro ballI)
    fix sec ln
    assume "sec \<in> set help" "ln \<in> set (help_lines sec)"
    then have "length (syntax_description ln) \<le> max_syntax_description_length help"
      by (rule syntax_description_bound)
    then show "2 + length (syntax_description ln)
        \<le> indent_width (max_syntax_description_length help)"
      by (simp add: indent_width_def)
  qed
  then have "\<exists>out. format_help help = Inr out"
    unfolding format_help_def by (rule format_sections_returns)
  with bound pad show ?thesis
    by (simp add: indent_width_def)
qed

text \<open>
  The theorem at two sections, one of them with no lines, and a line whose syntax
  description and blurb are both empty.
\<close>

theorem format_help_total_witness:
  "2 + length ''--port''
     \<le> indent_width (max_syntax_description_length
          [\<lparr>section_name = ''Options'',
            help_lines = [\<lparr>syntax_description = ''--port'', blurb = ''the port''\<rparr>,
                          \<lparr>syntax_description = [], blurb = []\<rparr>]\<rparr>,
           \<lparr>section_name = [], help_lines = []\<rparr>])
   \<and> format_help
        [\<lparr>section_name = ''Options'',
          help_lines = [\<lparr>syntax_description = ''--port'', blurb = ''the port''\<rparr>,
                        \<lparr>syntax_description = [], blurb = []\<rparr>]\<rparr>,
         \<lparr>section_name = [], help_lines = []\<rparr>]
     = Inr (''Options:'' @ [newline] @ ''  --port  the port'' @ [newline]
            @ ''          '' @ [newline] @ [newline] @ '':'' @ [newline] @ [newline])
   \<and> format_help [] = Inr []"
proof -
  let ?port = "\<lparr>syntax_description = ''--port'', blurb = ''the port''\<rparr>"
  let ?options = "\<lparr>section_name = ''Options'',
            help_lines = [?port, \<lparr>syntax_description = [], blurb = []\<rparr>]\<rparr>"
  let ?hs = "[?options, \<lparr>section_name = [], help_lines = []\<rparr>]"
  have w1: "split_by_spaces ''the port'' = [''the'', ''port'']"
    by code_simp
  have w2: "split_by_spaces [] = []"
    by code_simp
  have m: "max_syntax_description_length ?hs = 6"
    by (simp add: max_syntax_description_length_def)
  from format_help_total [of ?hs]
  have "\<forall>section\<in>set ?hs. \<forall>line\<in>set (help_lines section).
          2 + length (syntax_description line) \<le> indent_width (max_syntax_description_length ?hs)"
    by blast
  then have "2 + length (syntax_description ?port)
      \<le> indent_width (max_syntax_description_length ?hs)"
    by simp
  moreover have "format_help ?hs
     = Inr (''Options:'' @ [newline] @ ''  --port  the port'' @ [newline]
            @ ''          '' @ [newline] @ [newline] @ '':'' @ [newline] @ [newline])"
    by (simp add: format_help_def m summary_width_def indent_width_def word_wrap_def w1 w2
          numeral_eq_Suc)
  moreover have "format_help [] = Inr []"
    by (simp add: format_help_def)
  ultimately show ?thesis by simp
qed

end
